theory Spec2Isabelle
  imports Complex_Main
begin

section \<open>Python string and sequence primitives used by the RAG service\<close>

text \<open>
  A Python \<open>str\<close> is modelled as a \<open>string\<close>; one \<open>char\<close> stands for one code point
  in the range 0..255, so \<open>length\<close> is Python's \<open>len\<close> on such texts.
\<close>

datatype error = ValueError | ProviderError | StoreError

definition isspace :: "char \<Rightarrow> bool" where
  \<comment> \<open>\<open>str.isspace\<close> on the code points below 256\<close>
  "isspace c = (of_char c \<in> {9, 10, 11, 12, 13, 28, 29, 30, 31, 32, 133, 160 :: nat})"

definition strip :: "string \<Rightarrow> string" where
  \<comment> \<open>\<open>s.strip()\<close>: leading and trailing whitespace removed\<close>
  "strip s = rev (dropWhile isspace (rev (dropWhile isspace s)))"

definition norm_index :: "nat \<Rightarrow> int \<Rightarrow> nat" where
  \<comment> \<open>how a slice bound is clamped: a negative bound counts from the end\<close>
  "norm_index n i = (if i < 0 then nat (max (i + int n) 0) else min (nat i) n)"

definition slice :: "'a list \<Rightarrow> int \<Rightarrow> int \<Rightarrow> 'a list" where
  \<comment> \<open>\<open>s[lo:hi]\<close>\<close>
  "slice s lo hi =
     (let a = norm_index (length s) lo; b = norm_index (length s) hi
      in take (b - a) (drop a s))"

definition slice_from :: "'a list \<Rightarrow> int \<Rightarrow> 'a list" where
  \<comment> \<open>\<open>s[lo:]\<close>\<close>
  "slice_from s lo = drop (norm_index (length s) lo) s"

definition range0 :: "int \<Rightarrow> int \<Rightarrow> int list" where
  \<comment> \<open>\<open>range(0, n, step)\<close> for \<open>step \<noteq> 0\<close>: empty when \<open>step < 0\<close> (here \<open>n \<ge> 0\<close>)\<close>
  "range0 n step =
     (if step > 0 then map (\<lambda>k. int k * step) [0 ..< nat ((n + step - 1) div step)] else [])"

function split_str :: "string \<Rightarrow> string \<Rightarrow> string list" where
  \<comment> \<open>\<open>s.split(sep)\<close> for a non-empty \<open>sep\<close>: the pieces between the non-overlapping
      occurrences of \<open>sep\<close>, found left to right. The callers test \<open>separator == ""\<close>
      before splitting, so the empty separator never arrives here.\<close>
  "split_str sep s =
     (if s = [] then [[]]
      else if sep \<noteq> [] \<and> take (length sep) s = sep
           then [] # split_str sep (drop (length sep) s)
      else (case split_str sep (tl s) of
              [] \<Rightarrow> [[hd s]]
            | p # ps \<Rightarrow> (hd s # p) # ps))"
  by pat_completeness auto
termination
  by (relation "measure (\<lambda>(sep, s). length s)") (auto simp: neq_Nil_conv)

section \<open>TextChunker\<close>

record chunker =
  chunk_size :: int
  chunk_overlap :: int
  separators :: "string list"

definition default_separators :: "string list" where
  "default_separators = [[CHR 0x0A, CHR 0x0A], [CHR 0x0A], ''. '', '' '', '''']"

definition TextChunker :: "int \<Rightarrow> int \<Rightarrow> string list option \<Rightarrow> chunker" where
  \<comment> \<open>\<open>__init__\<close>: the parameters are stored as given; \<open>separators or [...]\<close> replaces
      \<open>None\<close> and the empty list by the default priority list\<close>
  "TextChunker cs co seps =
     \<lparr>chunk_size = cs, chunk_overlap = co,
      separators = (case seps of None \<Rightarrow> default_separators
                    | Some l \<Rightarrow> if l = [] then default_separators else l)\<rparr>"

definition split_by_size :: "chunker \<Rightarrow> string \<Rightarrow> error + string list" where
  \<comment> \<open>\<open>_split_by_size\<close>: \<open>range\<close> raises ValueError on a zero step\<close>
  "split_by_size self text =
     (let step = chunk_size self - chunk_overlap self in
      if step = 0 then Inl ValueError
      else Inr (filter (\<lambda>chunk. chunk \<noteq> [])
                 (map (\<lambda>i. slice text i (i + chunk_size self))
                      (range0 (int (length text)) step))))"

definition overlap_text :: "chunker \<Rightarrow> string \<Rightarrow> string" where
  \<comment> \<open>\<open>prev_chunk[-overlap:] if len(prev_chunk) > overlap else prev_chunk\<close>\<close>
  "overlap_text self prev_chunk =
     (if int (length prev_chunk) > chunk_overlap self
      then slice_from prev_chunk (- chunk_overlap self) else prev_chunk)"

definition add_overlap :: "chunker \<Rightarrow> string list \<Rightarrow> string list" where
  \<comment> \<open>\<open>_add_overlap\<close>\<close>
  "add_overlap self chunks =
     (if length chunks \<le> 1 then chunks
      else map (\<lambda>i. if i > 0 \<and> chunk_overlap self > 0
                     then overlap_text self (chunks ! (i - 1)) @ '' '' @ chunks ! i
                     else chunks ! i)
               [0 ..< length chunks])"

definition split_step ::
  "chunker \<Rightarrow> string \<Rightarrow> (string \<Rightarrow> error + string list) \<Rightarrow> string
     \<Rightarrow> string list \<times> string \<Rightarrow> error + string list \<times> string" where
  \<comment> \<open>one iteration of the loop of \<open>_recursive_split\<close> over \<open>splits\<close>; the state is
      \<open>(chunks, current_chunk)\<close>, \<open>rec\<close> is the recursive call on the remaining separators\<close>
  "split_step self separator rec split st =
     (case st of (chunks, current_chunk) \<Rightarrow>
       let potential_chunk =
             (if current_chunk \<noteq> [] then current_chunk @ separator @ split else split)
       in if int (length potential_chunk) \<le> chunk_size self then Inr (chunks, potential_chunk)
          else
            let chunks1 = (if current_chunk \<noteq> [] then chunks @ [current_chunk] else chunks)
            in if int (length split) > chunk_size self
               then (case rec split of
                       Inl e \<Rightarrow> Inl e
                     | Inr sub_chunks \<Rightarrow>
                         Inr (chunks1 @ (if sub_chunks \<noteq> [] then butlast sub_chunks else []),
                              if sub_chunks \<noteq> [] then last sub_chunks else []))
               else Inr (chunks1, split))"

fun split_loop ::
  "chunker \<Rightarrow> string \<Rightarrow> (string \<Rightarrow> error + string list) \<Rightarrow> string list
     \<Rightarrow> string list \<times> string \<Rightarrow> error + string list \<times> string" where
  "split_loop self separator rec [] st = Inr st"
| "split_loop self separator rec (split # splits) st =
     (case split_step self separator rec split st of
        Inl e \<Rightarrow> Inl e
      | Inr st' \<Rightarrow> split_loop self separator rec splits st')"

definition segments ::
  "chunker \<Rightarrow> string \<Rightarrow> (string \<Rightarrow> error + string list) \<Rightarrow> string \<Rightarrow> error + string list" where
  \<comment> \<open>the list \<open>chunks\<close> of \<open>_recursive_split\<close> as it stands before \<open>_add_overlap\<close> is called\<close>
  "segments self separator rec text =
     (case split_loop self separator rec (split_str separator text) ([], []) of
        Inl e \<Rightarrow> Inl e
      | Inr (chunks, current_chunk) \<Rightarrow>
          Inr (if current_chunk \<noteq> [] then chunks @ [current_chunk] else chunks))"

fun recursive_split :: "chunker \<Rightarrow> string \<Rightarrow> string list \<Rightarrow> error + string list" where
  "recursive_split self text [] = split_by_size self text"
| "recursive_split self text (separator # remaining_separators) =
     (if separator = [] then split_by_size self text
      else (case segments self separator
                   (\<lambda>split. recursive_split self split remaining_separators) text of
              Inl e \<Rightarrow> Inl e
            | Inr chunks \<Rightarrow> Inr (add_overlap self chunks)))"

record chunk =
  chunk_index :: nat
  content :: string
  token_count :: nat

definition estimate_tokens :: "string \<Rightarrow> nat" where
  "estimate_tokens text = length text div 4"

definition split_text :: "chunker \<Rightarrow> string \<Rightarrow> error + chunk list" where
  "split_text self text =
     (if text = [] \<or> strip text = [] then Inr []
      else (case recursive_split self (strip text) (separators self) of
              Inl e \<Rightarrow> Inl e
            | Inr chunks \<Rightarrow>
                Inr (map (\<lambda>(i, chunk). \<lparr>chunk_index = i, content = strip chunk,
                                         token_count = estimate_tokens chunk\<rparr>)
                      (filter (\<lambda>(i, chunk). strip chunk \<noteq> []) (enumerate 0 chunks)))))"

section \<open>The external collaborators\<close>

text \<open>
  The embedding provider and the content store are outside the program. Every call
  made to them is appended to a log, and what a call answers (a value, or an exception
  raised) is a function of the calls made before it and of its arguments.
\<close>

datatype task_type = retrieval_document | retrieval_query

record chunk_record =
  r_source_id :: string
  r_chunk_index :: nat
  r_content :: string
  r_embedding :: "real list"
  r_token_count :: nat

record match_params =
  query_embedding :: "real list"
  match_count :: int
  p_notebook_id :: string
  p_source_ids :: "string list option"

record search_row =
  c_source_id :: string
  c_content :: string
  c_similarity :: "real option"

record source_row =
  s_id :: string
  s_name :: string
  s_type :: "string option"
  s_summary :: "string option"
  s_metadata_content :: "string option"

datatype call =
    EmbedContent string task_type
  | InsertChunks "chunk_record list"
  | MatchSourceChunks match_params
  | SelectSourcesIn "string list"
  | SelectReadySources string "string list option"

record world =
  embed_content :: "call list \<Rightarrow> string \<Rightarrow> task_type \<Rightarrow> error + real list"
  insert_execute :: "call list \<Rightarrow> chunk_record list \<Rightarrow> error + unit"
  rpc_match_source_chunks :: "call list \<Rightarrow> match_params \<Rightarrow> error + search_row list option"
  select_sources_in :: "call list \<Rightarrow> string list \<Rightarrow> error + source_row list option"
  select_ready_sources ::
    "call list \<Rightarrow> string \<Rightarrow> string list option \<Rightarrow> error + source_row list option"
  set_iteration :: "string list \<Rightarrow> string list"
  format_2f :: "real \<Rightarrow> string"

definition steady_world :: world where
  \<comment> \<open>collaborators that always answer: a one-number embedding, accepted inserts,
      no rows; used to run the service on concrete inputs\<close>
  "steady_world =
     \<lparr>embed_content = (\<lambda>calls text task. Inr [1]),
      insert_execute = (\<lambda>calls batch. Inr ()),
      rpc_match_source_chunks = (\<lambda>calls params. Inr (Some [])),
      select_sources_in = (\<lambda>calls ids. Inr (Some [])),
      select_ready_sources = (\<lambda>calls nb ids. Inr (Some [])),
      set_iteration = remdups,
      format_2f = (\<lambda>x. ''0.00'')\<rparr>"

section \<open>EmbeddingService\<close>

definition EMBEDDING_DIM :: nat where
  "EMBEDDING_DIM = 768"

definition generate_embedding ::
  "world \<Rightarrow> string \<Rightarrow> call list \<Rightarrow> (error + real list) \<times> call list" where
  "generate_embedding w text calls =
     (if text = [] \<or> strip text = [] then (Inr (replicate EMBEDDING_DIM 0), calls)
      else let text1 = slice text 0 10000
           in (embed_content w calls text1 retrieval_document,
               calls @ [EmbedContent text1 retrieval_document]))"

fun generate_embeddings_batch ::
  "world \<Rightarrow> string list \<Rightarrow> call list \<Rightarrow> (error + real list list) \<times> call list" where
  "generate_embeddings_batch w [] calls = (Inr [], calls)"
| "generate_embeddings_batch w (text # texts) calls =
     (case generate_embedding w text calls of
        (Inl e, calls1) \<Rightarrow> (Inl e, calls1)
      | (Inr embedding, calls1) \<Rightarrow>
          (case generate_embeddings_batch w texts calls1 of
             (Inl e, calls2) \<Rightarrow> (Inl e, calls2)
           | (Inr embeddings, calls2) \<Rightarrow> (Inr (embedding # embeddings), calls2)))"

definition generate_query_embedding ::
  "world \<Rightarrow> string \<Rightarrow> call list \<Rightarrow> (error + real list) \<times> call list" where
  "generate_query_embedding w query calls =
     (if query = [] \<or> strip query = [] then (Inr (replicate EMBEDDING_DIM 0), calls)
      else (embed_content w calls query retrieval_query,
            calls @ [EmbedContent query retrieval_query]))"

section \<open>RAGService\<close>

record rag_service =
  chunker :: chunker

definition RAGService :: rag_service where
  \<comment> \<open>\<open>__init__\<close>; the embedding service holds no state\<close>
  "RAGService = \<lparr>chunker = TextChunker 1000 200 None\<rparr>"

definition chunk_records :: "string \<Rightarrow> chunk list \<Rightarrow> real list list \<Rightarrow> chunk_record list" where
  \<comment> \<open>the loop over \<open>zip(chunks, embeddings)\<close>; the metadata of a record is always empty\<close>
  "chunk_records source_id chunks embeddings =
     map (\<lambda>(chunk, embedding).
            \<lparr>r_source_id = source_id, r_chunk_index = chunk_index chunk,
             r_content = content chunk, r_embedding = embedding,
             r_token_count = token_count chunk\<rparr>)
         (zip chunks embeddings)"

fun insert_batches ::
  "world \<Rightarrow> chunk_record list list \<Rightarrow> call list \<Rightarrow> (error + unit) \<times> call list" where
  \<comment> \<open>one \<open>insert(batch).execute()\<close> per batch, stopping at the first that raises\<close>
  "insert_batches w [] calls = (Inr (), calls)"
| "insert_batches w (batch # batches) calls =
     (case insert_execute w calls batch of
        Inl e \<Rightarrow> (Inl e, calls @ [InsertChunks batch])
      | Inr _ \<Rightarrow> insert_batches w batches (calls @ [InsertChunks batch]))"

definition batch_size :: int where
  "batch_size = 50"

definition process_source ::
  "rag_service \<Rightarrow> world \<Rightarrow> string \<Rightarrow> string \<Rightarrow> call list \<Rightarrow> (error + nat) \<times> call list" where
  "process_source self w source_id text calls =
     (case split_text (chunker self) text of
        Inl e \<Rightarrow> (Inl e, calls)
      | Inr chunks \<Rightarrow>
          if chunks = [] then (Inr 0, calls)
          else (case generate_embeddings_batch w (map content chunks) calls of
                  (Inl e, calls1) \<Rightarrow> (Inl e, calls1)
                | (Inr embeddings, calls1) \<Rightarrow>
                    let records = chunk_records source_id chunks embeddings;
                        batches = map (\<lambda>i. slice records i (i + batch_size))
                                      (range0 (int (length records)) batch_size)
                    in (case insert_batches w batches calls1 of
                          (Inl e, calls2) \<Rightarrow> (Inl e, calls2)
                        | (Inr _, calls2) \<Rightarrow> (Inr (length records), calls2))))"

definition truthy_ids :: "string list option \<Rightarrow> bool" where
  \<comment> \<open>the truth value of an optional list: \<open>None\<close> and \<open>[]\<close> are false\<close>
  "truthy_ids ids = (case ids of None \<Rightarrow> False | Some l \<Rightarrow> l \<noteq> [])"

definition data_or_empty :: "'a list option \<Rightarrow> 'a list" where
  \<comment> \<open>\<open>result.data or []\<close>\<close>
  "data_or_empty d = (case d of None \<Rightarrow> [] | Some rows \<Rightarrow> rows)"

definition search ::
  "rag_service \<Rightarrow> world \<Rightarrow> string \<Rightarrow> string \<Rightarrow> string list option \<Rightarrow> int \<Rightarrow> call list
     \<Rightarrow> (error + search_row list) \<times> call list" where
  "search self w query notebook_id source_ids count calls =
     (case generate_query_embedding w query calls of
        (Inl e, calls1) \<Rightarrow> (Inl e, calls1)
      | (Inr emb, calls1) \<Rightarrow>
          let params = \<lparr>query_embedding = emb, match_count = count,
                        p_notebook_id = notebook_id,
                        p_source_ids = (if truthy_ids source_ids then source_ids else None)\<rparr>
          in (case rpc_match_source_chunks w calls1 params of
                Inl e \<Rightarrow> (Inl e, calls1 @ [MatchSourceChunks params])
              | Inr d \<Rightarrow> (Inr (data_or_empty d), calls1 @ [MatchSourceChunks params])))"

section \<open>The chat router's context builders\<close>

fun join :: "string \<Rightarrow> string list \<Rightarrow> string" where
  \<comment> \<open>\<open>sep.join(parts)\<close>\<close>
  "join sep [] = []"
| "join sep [p] = p"
| "join sep (p # q # ps) = p @ sep @ join sep (q # ps)"

function str_nat :: "nat \<Rightarrow> string" where
  \<comment> \<open>the decimal digits of a non-negative integer, as an f-string prints it\<close>
  "str_nat n =
     (if n < 10 then [char_of (48 + n)]
      else str_nat (n div 10) @ [char_of (48 + n mod 10)])"
  by pat_completeness auto
termination
  by (relation "measure id") auto

definition source_text :: "source_row \<Rightarrow> string" where
  \<comment> \<open>the content chosen for a source in \<open>get_sources_content\<close>\<close>
  "source_text source =
     (if s_type source = Some ''text''
         \<and> (case s_metadata_content source of None \<Rightarrow> False | Some c \<Rightarrow> c \<noteq> [])
      then the (s_metadata_content source)
      else if (case s_summary source of None \<Rightarrow> False | Some c \<Rightarrow> c \<noteq> [])
      then the (s_summary source)
      else ''[Source: '' @ s_name source @ '']'')"

definition get_sources_content ::
  "world \<Rightarrow> string \<Rightarrow> string list option \<Rightarrow> call list
     \<Rightarrow> (error + string \<times> source_row list \<times> string list) \<times> call list" where
  "get_sources_content w notebook_id source_ids calls =
     (let flt = (if truthy_ids source_ids then source_ids else None);
          calls1 = calls @ [SelectReadySources notebook_id flt]
      in (case select_ready_sources w calls notebook_id flt of
            Inl e \<Rightarrow> (Inl e, calls1)
          | Inr d \<Rightarrow>
              let sources = data_or_empty d;
                  context_parts =
                    map (\<lambda>source. ''--- Source: '' @ s_name source @ '' ---'' @ [CHR 0x0A]
                                   @ source_text source @ [CHR 0x0A]) sources;
                  source_names = map s_name sources
              in (Inr (join [CHR 0x0A] context_parts, sources, source_names), calls1)))"

fun context_loop ::
  "world \<Rightarrow> (string \<rightharpoonup> source_row) \<Rightarrow> nat \<Rightarrow> search_row list
     \<Rightarrow> string list \<times> string list \<times> string set \<Rightarrow> string list \<times> string list \<times> string set" where
  \<comment> \<open>the loop \<open>for i, chunk in enumerate(chunks, 1)\<close>; the state is
      \<open>(context_parts, source_names, seen_sources)\<close>\<close>
  "context_loop w sources i [] st = st"
| "context_loop w sources i (chunk # chunks) (context_parts, source_names, seen_sources) =
     (let source_name = (case sources (c_source_id chunk) of
                           None \<Rightarrow> ''Unknown'' | Some source \<Rightarrow> s_name source);
          source_names1 = (if source_name \<notin> seen_sources
                           then source_names @ [source_name] else source_names);
          seen1 = (if source_name \<notin> seen_sources
                   then insert source_name seen_sources else seen_sources);
          similarity = (case c_similarity chunk of None \<Rightarrow> 0 | Some x \<Rightarrow> x);
          part = ''['' @ str_nat i @ ''] Source: '' @ source_name @ '' (relevance: ''
                 @ format_2f w similarity @ '')'' @ [CHR 0x0A] @ c_content chunk @ [CHR 0x0A]
      in context_loop w sources (Suc i) chunks
           (context_parts @ [part], source_names1, seen1))"

definition unknown_source :: "string \<Rightarrow> source_row" where
  \<comment> \<open>\<open>{"id": sid, "name": "Unknown"}\<close>\<close>
  "unknown_source sid =
     \<lparr>s_id = sid, s_name = ''Unknown'', s_type = None, s_summary = None,
      s_metadata_content = None\<rparr>"

definition get_rag_context ::
  "world \<Rightarrow> string \<Rightarrow> string \<Rightarrow> string list option \<Rightarrow> int \<Rightarrow> call list
     \<Rightarrow> (error + string \<times> source_row list \<times> string list) \<times> call list" where
  "get_rag_context w notebook_id query source_ids count calls =
     (case search RAGService w query notebook_id
             (if truthy_ids source_ids then source_ids else None) count calls of
        (Inl e, calls1) \<Rightarrow> get_sources_content w notebook_id source_ids calls1
      | (Inr chunks, calls1) \<Rightarrow>
          if chunks = [] then get_sources_content w notebook_id source_ids calls1
          else
            let source_ids_from_chunks = set_iteration w (map c_source_id chunks);
                calls2 = calls1 @ [SelectSourcesIn source_ids_from_chunks]
            in (case select_sources_in w calls1 source_ids_from_chunks of
                  Inl e \<Rightarrow> (Inl e, calls2)
                | Inr d \<Rightarrow>
                    let sources = map_of (rev (map (\<lambda>s. (s_id s, s)) (data_or_empty d)));
                        (context_parts, source_names, seen_sources) =
                           context_loop w sources 1 chunks ([], [], {});
                        sources_list =
                           map (\<lambda>sid. case sources sid of
                                         None \<Rightarrow> unknown_source sid | Some s \<Rightarrow> s)
                               source_ids_from_chunks
                    in (Inr (join [CHR 0x0A, CHR 0x0A] context_parts, sources_list,
                             source_names), calls2)))"

section \<open>Reading the log of external calls\<close>

definition is_insert :: "call \<Rightarrow> bool" where
  "is_insert c = (case c of InsertChunks b \<Rightarrow> True | _ \<Rightarrow> False)"

definition call_failed :: "world \<Rightarrow> call list \<Rightarrow> call \<Rightarrow> bool" where
  \<comment> \<open>the call \<open>c\<close>, made after the calls of \<open>history\<close>, raised\<close>
  "call_failed w history c =
     (case c of
        EmbedContent t k \<Rightarrow> isl (embed_content w history t k)
      | InsertChunks b \<Rightarrow> isl (insert_execute w history b)
      | MatchSourceChunks p \<Rightarrow> isl (rpc_match_source_chunks w history p)
      | SelectSourcesIn ids \<Rightarrow> isl (select_sources_in w history ids)
      | SelectReadySources nb ids \<Rightarrow> isl (select_ready_sources w history nb ids))"

definition broken_store_world :: world where
  \<comment> \<open>as \<open>steady_world\<close>, with a similarity search that raises on every call\<close>
  "broken_store_world =
     steady_world\<lparr>rpc_match_source_chunks := (\<lambda>calls params. Inl StoreError)\<rparr>"

definition embed_call :: "string \<Rightarrow> call" where
  \<comment> \<open>the provider call that \<open>generate_embedding\<close> makes for a text that is not blank\<close>
  "embed_call t = EmbedContent (slice t 0 10000) retrieval_document"

definition record_batches :: "chunk_record list \<Rightarrow> chunk_record list list" where
  \<comment> \<open>the batches of the insert loop of \<open>process_source\<close>, in the order they are written\<close>
  "record_batches records =
     map (\<lambda>i. slice records i (i + batch_size)) (range0 (int (length records)) batch_size)"

definition flaky_provider_world :: world where
  \<comment> \<open>as \<open>steady_world\<close>, with a provider that answers its first call and raises afterwards\<close>
  "flaky_provider_world =
     steady_world\<lparr>embed_content :=
        (\<lambda>calls text task. if calls = [] then Inr [1] else Inl ProviderError)\<rparr>"

definition broken_insert_world :: world where
  \<comment> \<open>as \<open>steady_world\<close>, with a store whose insert raises on every call\<close>
  "broken_insert_world =
     steady_world\<lparr>insert_execute := (\<lambda>calls batch. Inl StoreError)\<rparr>"

definition source_a :: source_row where
  \<comment> \<open>two source rows and a store that ranks a chunk of the second before a chunk of
      the first; the set of their ids iterates in the other order\<close>
  "source_a = \<lparr>s_id = ''a'', s_name = ''Alpha'', s_type = None, s_summary = None,
               s_metadata_content = None\<rparr>"

definition source_b :: source_row where
  "source_b = \<lparr>s_id = ''b'', s_name = ''Beta'', s_type = None, s_summary = None,
               s_metadata_content = None\<rparr>"

definition two_source_world :: world where
  "two_source_world =
     steady_world
       \<lparr>rpc_match_source_chunks := (\<lambda>calls params. Inr (Some
            [\<lparr>c_source_id = ''b'', c_content = ''first'', c_similarity = Some 1\<rparr>,
             \<lparr>c_source_id = ''a'', c_content = ''second'', c_similarity = Some 0\<rparr>])),
        select_sources_in := (\<lambda>calls ids. Inr (Some [source_a, source_b])),
        set_iteration := (\<lambda>xs. rev (remdups xs))\<rparr>"

section \<open>Properties of the string primitives\<close>

lemma dropWhile_all_Nil: "(\<forall>x \<in> set (dropWhile P xs). P x) \<longleftrightarrow> dropWhile P xs = []"
proof
  assume all: "\<forall>x \<in> set (dropWhile P xs). P x"
  show "dropWhile P xs = []"
  proof (rule ccontr)
    assume ne: "dropWhile P xs \<noteq> []"
    then have "\<not> P (hd (dropWhile P xs))" by (rule hd_dropWhile)
    moreover from ne have "hd (dropWhile P xs) \<in> set (dropWhile P xs)" by simp
    ultimately show False using all by blast
  qed
qed (auto dest: set_dropWhileD)

lemma strip_eq_Nil_iff: "strip s = [] \<longleftrightarrow> (\<forall>c \<in> set s. isspace c)"
proof -
  have "strip s = [] \<longleftrightarrow> (\<forall>x \<in> set (dropWhile isspace s). isspace x)"
    by (simp add: strip_def)
  also have "\<dots> \<longleftrightarrow> dropWhile isspace s = []" by (rule dropWhile_all_Nil)
  also have "\<dots> \<longleftrightarrow> (\<forall>c \<in> set s. isspace c)" by simp
  finally show ?thesis .
qed

lemma slice_0_take: "0 \<le> n \<Longrightarrow> slice s 0 n = take (nat n) s"
  by (simp add: slice_def norm_index_def min_def)

section \<open>The embedding contract\<close>

text \<open>
  C9. For an empty or whitespace-only text, embedding in document mode and embedding
  in query mode both return the zero vector of dimension 768, and the log of external
  calls is left as it was: no provider call is made.
\<close>

theorem blank_text_zero_vector:
  assumes "text = [] \<or> (\<forall>c \<in> set text. isspace c)"
  shows "generate_embedding w text calls = (Inr (replicate 768 0), calls)
       \<and> generate_query_embedding w text calls = (Inr (replicate 768 0), calls)"
  using assms
  by (auto simp: generate_embedding_def generate_query_embedding_def EMBEDDING_DIM_def
      strip_eq_Nil_iff)

theorem blank_text_zero_vector_witness:
  "generate_embedding steady_world [CHR '' '', CHR 0x0A] [] = (Inr (replicate 768 0), [])
 \<and> generate_query_embedding steady_world [CHR '' '', CHR 0x0A] [] = (Inr (replicate 768 0), [])"
  using blank_text_zero_vector [of "[CHR '' '', CHR 0x0A]" steady_world "[]"]
  by (simp add: isspace_def)

text \<open>
  C5. The claim is that a text longer than 10,000 characters reaches the provider cut
  to its first 10,000 characters in document mode and in query mode alike. Document
  mode does cut the text; query mode passes it on whole. At a query of 10,001 letters
  the provider receives all 10,001 characters.
\<close>

theorem query_embedding_not_truncated:
  "snd (generate_query_embedding steady_world (replicate 10001 (CHR ''a'')) [])
     = [EmbedContent (replicate 10001 (CHR ''a'')) retrieval_query]
   \<and> snd (generate_embedding steady_world (replicate 10001 (CHR ''a'')) [])
     = [EmbedContent (replicate 10000 (CHR ''a'')) retrieval_document]"
  by (simp add: generate_query_embedding_def generate_embedding_def strip_eq_Nil_iff isspace_def slice_0_take Let_def)

section \<open>Ingestion: the order of external calls\<close>

lemma gen_emb_call:
  assumes "strip t \<noteq> []"
  shows "generate_embedding w t calls
           = (embed_content w calls (slice t 0 10000) retrieval_document, calls @ [embed_call t])"
proof -
  from assms have "t \<noteq> []" by (auto simp: strip_def)
  with assms show ?thesis by (simp add: generate_embedding_def embed_call_def Let_def)
qed

lemma batch_trace:
  assumes "\<forall>t \<in> set texts. strip t \<noteq> []"
    and "generate_embeddings_batch w texts calls = (r, calls')"
  shows "(\<exists>embs. r = Inr embs \<and> calls' = calls @ map embed_call texts
            \<and> length embs = length texts
            \<and> (\<forall>i < length texts.
                  embed_content w (calls @ map embed_call (take i texts))
                    (slice (texts ! i) 0 10000) retrieval_document = Inr (embs ! i)))
       \<or> (\<exists>e k. r = Inl e \<and> k < length texts
            \<and> calls' = calls @ map embed_call (take k texts) @ [embed_call (texts ! k)]
            \<and> (\<forall>i < k. \<not> call_failed w (calls @ map embed_call (take i texts))
                              (embed_call (texts ! i)))
            \<and> call_failed w (calls @ map embed_call (take k texts)) (embed_call (texts ! k)))"
  using assms
proof (induction texts arbitrary: calls r calls')
  case Nil
  then show ?case by simp
next
  case (Cons x xs)
  from Cons.prems(1) have nb: "strip x \<noteq> []" and nbs: "\<forall>t \<in> set xs. strip t \<noteq> []" by simp_all
  let ?a = "embed_content w calls (slice x 0 10000) retrieval_document"
  have g: "generate_embedding w x calls = (?a, calls @ [embed_call x])"
    by (rule gen_emb_call[OF nb])
  show ?case
  proof (cases ?a)
    case (Inl e)
    with Cons.prems(2) g have rc: "r = Inl e" "calls' = calls @ [embed_call x]" by simp_all
    have f: "call_failed w calls (embed_call x)"
      using Inl by (simp add: call_failed_def embed_call_def)
    have "r = Inl e \<and> (0::nat) < length (x # xs)
            \<and> calls' = calls @ map embed_call (take 0 (x # xs)) @ [embed_call ((x # xs) ! 0)]
            \<and> (\<forall>i < (0::nat). \<not> call_failed w (calls @ map embed_call (take i (x # xs)))
                              (embed_call ((x # xs) ! i)))
            \<and> call_failed w (calls @ map embed_call (take 0 (x # xs))) (embed_call ((x # xs) ! 0))"
      using rc f by simp
    then show ?thesis by blast
  next
    case (Inr emb)
    have ok0: "\<not> call_failed w calls (embed_call x)"
      using Inr by (simp add: call_failed_def embed_call_def)
    obtain r2 c2 where b: "generate_embeddings_batch w xs (calls @ [embed_call x]) = (r2, c2)"
      by force
    from Cons.prems(2) g Inr b have rc: "calls' = c2"
      "r = (case r2 of Inl e \<Rightarrow> Inl e | Inr embs \<Rightarrow> Inr (emb # embs))"
      by (auto split: sum.splits)
    from Cons.IH[OF nbs b] show ?thesis
    proof (elim disjE exE conjE)
      fix embs
      assume h: "r2 = Inr embs" "c2 = (calls @ [embed_call x]) @ map embed_call xs"
        "length embs = length xs"
        "\<forall>i < length xs. embed_content w ((calls @ [embed_call x]) @ map embed_call (take i xs))
                    (slice (xs ! i) 0 10000) retrieval_document = Inr (embs ! i)"
      have "\<forall>i < length (x # xs).
                  embed_content w (calls @ map embed_call (take i (x # xs)))
                    (slice ((x # xs) ! i) 0 10000) retrieval_document = Inr ((emb # embs) ! i)"
      proof (intro allI impI)
        fix i assume "i < length (x # xs)"
        then show "embed_content w (calls @ map embed_call (take i (x # xs)))
                    (slice ((x # xs) ! i) 0 10000) retrieval_document = Inr ((emb # embs) ! i)"
          using h(4) Inr by (cases i) simp_all
      qed
      with h rc have "r = Inr (emb # embs) \<and> calls' = calls @ map embed_call (x # xs)
            \<and> length (emb # embs) = length (x # xs)
            \<and> (\<forall>i < length (x # xs).
                  embed_content w (calls @ map embed_call (take i (x # xs)))
                    (slice ((x # xs) ! i) 0 10000) retrieval_document = Inr ((emb # embs) ! i))"
        by simp
      then show ?thesis by blast
    next
      fix e k
      assume h: "r2 = Inl e" "k < length xs"
        "c2 = (calls @ [embed_call x]) @ map embed_call (take k xs) @ [embed_call (xs ! k)]"
        "\<forall>i < k. \<not> call_failed w ((calls @ [embed_call x]) @ map embed_call (take i xs))
                              (embed_call (xs ! i))"
        "call_failed w ((calls @ [embed_call x]) @ map embed_call (take k xs)) (embed_call (xs ! k))"
      have "\<forall>i < Suc k. \<not> call_failed w (calls @ map embed_call (take i (x # xs)))
                              (embed_call ((x # xs) ! i))"
      proof (intro allI impI)
        fix i assume "i < Suc k"
        then show "\<not> call_failed w (calls @ map embed_call (take i (x # xs)))
                              (embed_call ((x # xs) ! i))"
          using h(4) ok0 by (cases i) simp_all
      qed
      with h rc have "r = Inl e \<and> Suc k < length (x # xs)
            \<and> calls' = calls @ map embed_call (take (Suc k) (x # xs)) @ [embed_call ((x # xs) ! Suc k)]
            \<and> (\<forall>i < Suc k. \<not> call_failed w (calls @ map embed_call (take i (x # xs)))
                              (embed_call ((x # xs) ! i)))
            \<and> call_failed w (calls @ map embed_call (take (Suc k) (x # xs))) (embed_call ((x # xs) ! Suc k))"
        by simp
      then show ?thesis by blast
    qed
  qed
qed

lemma insert_trace:
  assumes "insert_batches w bs calls = (r, calls')"
  shows "(r = Inr () \<and> calls' = calls @ map InsertChunks bs)
       \<or> (\<exists>e k. r = Inl e \<and> k < length bs
            \<and> calls' = calls @ map InsertChunks (take k bs) @ [InsertChunks (bs ! k)]
            \<and> call_failed w (calls @ map InsertChunks (take k bs)) (InsertChunks (bs ! k)))"
  using assms
proof (induction bs arbitrary: calls)
  case Nil
  then show ?case by simp
next
  case (Cons b bs)
  show ?case
  proof (cases "insert_execute w calls b")
    case (Inl e)
    with Cons.prems have rc: "r = Inl e" "calls' = calls @ [InsertChunks b]" by simp_all
    have "r = Inl e \<and> (0::nat) < length (b # bs)
            \<and> calls' = calls @ map InsertChunks (take 0 (b # bs)) @ [InsertChunks ((b # bs) ! 0)]
            \<and> call_failed w (calls @ map InsertChunks (take 0 (b # bs))) (InsertChunks ((b # bs) ! 0))"
      using rc Inl by (simp add: call_failed_def)
    then show ?thesis by blast
  next
    case (Inr u)
    with Cons.prems have "insert_batches w bs (calls @ [InsertChunks b]) = (r, calls')" by simp
    from Cons.IH[OF this] show ?thesis
    proof (elim disjE exE conjE)
      assume "r = Inr ()" "calls' = (calls @ [InsertChunks b]) @ map InsertChunks bs"
      then show ?thesis by simp
    next
      fix e k
      assume h: "r = Inl e" "k < length bs"
        "calls' = (calls @ [InsertChunks b]) @ map InsertChunks (take k bs) @ [InsertChunks (bs ! k)]"
        "call_failed w ((calls @ [InsertChunks b]) @ map InsertChunks (take k bs)) (InsertChunks (bs ! k))"
      then have "r = Inl e \<and> Suc k < length (b # bs)
            \<and> calls' = calls @ map InsertChunks (take (Suc k) (b # bs)) @ [InsertChunks ((b # bs) ! Suc k)]
            \<and> call_failed w (calls @ map InsertChunks (take (Suc k) (b # bs))) (InsertChunks ((b # bs) ! Suc k))"
        by simp
      then show ?thesis by blast
    qed
  qed
qed

lemma dropWhile_keeps:
  "x \<in> set xs \<Longrightarrow> \<not> P x \<Longrightarrow> x \<in> set (dropWhile P xs)"
  by (induction xs) auto

lemma strip_keeps:
  assumes "x \<in> set s" and "\<not> isspace x"
  shows "x \<in> set (strip s)"
proof -
  from assms have "x \<in> set (rev (dropWhile isspace s))"
    by (simp add: dropWhile_keeps)
  then have "x \<in> set (dropWhile isspace (rev (dropWhile isspace s)))"
    using assms(2) by (rule dropWhile_keeps)
  then show ?thesis by (simp add: strip_def)
qed

lemma strip_strip_nonempty:
  assumes "strip s \<noteq> []"
  shows "strip (strip s) \<noteq> []"
proof -
  from assms obtain x where x: "x \<in> set s" "\<not> isspace x"
    by (auto simp: strip_eq_Nil_iff)
  then have "x \<in> set (strip s)" by (rule strip_keeps)
  with x(2) show ?thesis by (auto simp: strip_eq_Nil_iff)
qed

lemma split_text_nonblank:
  assumes "split_text self t = Inr chunks"
  shows "\<forall>c \<in> set chunks. strip (content c) \<noteq> []"
proof (cases "t = [] \<or> strip t = []")
  case True
  with assms show ?thesis by (auto simp: split_text_def)
next
  case False
  then obtain out where out: "recursive_split self (strip t) (separators self) = Inr out"
    using assms by (cases "recursive_split self (strip t) (separators self)")
      (auto simp: split_text_def)
  with False assms have "chunks = map (\<lambda>(i, chunk). \<lparr>chunk_index = i, content = strip chunk,
                                         token_count = estimate_tokens chunk\<rparr>)
                      (filter (\<lambda>(i, chunk). strip chunk \<noteq> []) (enumerate 0 out))"
    by (auto simp: split_text_def)
  then show ?thesis by (auto simp: strip_strip_nonempty)
qed

lemma process_source_trace:
  assumes st: "split_text (chunker self) t = Inr chunks" and ne: "chunks \<noteq> []"
  shows "(\<exists>e k. k < length chunks
            \<and> process_source self w sid t calls
                = (Inl e, calls @ map embed_call (take k (map content chunks))
                            @ [embed_call (map content chunks ! k)])
            \<and> (\<forall>i < k. \<not> call_failed w (calls @ map embed_call (take i (map content chunks)))
                              (embed_call (map content chunks ! i)))
            \<and> call_failed w (calls @ map embed_call (take k (map content chunks)))
                              (embed_call (map content chunks ! k)))
       \<or> (\<exists>embs. length embs = length chunks
            \<and> (\<forall>i < length chunks.
                  embed_content w (calls @ map embed_call (take i (map content chunks)))
                    (slice (map content chunks ! i) 0 10000) retrieval_document = Inr (embs ! i))
            \<and> (process_source self w sid t calls
                  = (Inr (length chunks),
                     calls @ map embed_call (map content chunks)
                       @ map InsertChunks (record_batches (chunk_records sid chunks embs)))
                \<or> (\<exists>e k. k < length (record_batches (chunk_records sid chunks embs))
                      \<and> process_source self w sid t calls
                          = (Inl e, calls @ map embed_call (map content chunks)
                               @ map InsertChunks (take k (record_batches (chunk_records sid chunks embs)))
                               @ [InsertChunks (record_batches (chunk_records sid chunks embs) ! k)])
                      \<and> call_failed w
                           (calls @ map embed_call (map content chunks)
                              @ map InsertChunks (take k (record_batches (chunk_records sid chunks embs))))
                           (InsertChunks (record_batches (chunk_records sid chunks embs) ! k)))))"
proof -
  let ?texts = "map content chunks"
  have nb: "\<forall>x \<in> set ?texts. strip x \<noteq> []"
    using split_text_nonblank[OF st] by simp
  obtain r1 c1 where g: "generate_embeddings_batch w ?texts calls = (r1, c1)" by force
  from batch_trace[OF nb g] show ?thesis
  proof (elim disjE exE conjE)
    fix e k
    assume h: "r1 = Inl e" "k < length ?texts"
      "c1 = calls @ map embed_call (take k ?texts) @ [embed_call (?texts ! k)]"
      "\<forall>i < k. \<not> call_failed w (calls @ map embed_call (take i ?texts)) (embed_call (?texts ! i))"
      "call_failed w (calls @ map embed_call (take k ?texts)) (embed_call (?texts ! k))"
    from st ne g h(1) have "process_source self w sid t calls = (Inl e, c1)"
      by (simp add: process_source_def)
    with h have "k < length chunks
            \<and> process_source self w sid t calls
                = (Inl e, calls @ map embed_call (take k ?texts) @ [embed_call (?texts ! k)])
            \<and> (\<forall>i < k. \<not> call_failed w (calls @ map embed_call (take i ?texts))
                              (embed_call (?texts ! i)))
            \<and> call_failed w (calls @ map embed_call (take k ?texts)) (embed_call (?texts ! k))"
      by simp
    then show ?thesis by blast
  next
    fix embs
    assume h: "r1 = Inr embs" "c1 = calls @ map embed_call ?texts" "length embs = length ?texts"
      "\<forall>i < length ?texts. embed_content w (calls @ map embed_call (take i ?texts))
                    (slice (?texts ! i) 0 10000) retrieval_document = Inr (embs ! i)"
    let ?B = "record_batches (chunk_records sid chunks embs)"
    obtain r2 c2 where ib: "insert_batches w ?B c1 = (r2, c2)" by force
    have run: "process_source self w sid t calls
        = (case r2 of Inl e \<Rightarrow> (Inl e, c2)
           | Inr u \<Rightarrow> (Inr (length (chunk_records sid chunks embs)), c2))"
      using st ne g h(1) ib
      by (simp add: process_source_def Let_def record_batches_def split: sum.splits)
    have rl: "length (chunk_records sid chunks embs) = length chunks"
      using h(3) by (simp add: chunk_records_def)
    from insert_trace[OF ib]
    have "process_source self w sid t calls
                  = (Inr (length chunks), calls @ map embed_call ?texts @ map InsertChunks ?B)
                \<or> (\<exists>e k. k < length ?B
                      \<and> process_source self w sid t calls
                          = (Inl e, calls @ map embed_call ?texts
                               @ map InsertChunks (take k ?B) @ [InsertChunks (?B ! k)])
                      \<and> call_failed w
                           (calls @ map embed_call ?texts @ map InsertChunks (take k ?B))
                           (InsertChunks (?B ! k)))"
    proof (elim disjE exE conjE)
      assume "r2 = Inr ()" "c2 = c1 @ map InsertChunks ?B"
      with run rl h(2) show ?thesis by simp
    next
      fix e k
      assume "r2 = Inl e" "k < length ?B"
        "c2 = c1 @ map InsertChunks (take k ?B) @ [InsertChunks (?B ! k)]"
        "call_failed w (c1 @ map InsertChunks (take k ?B)) (InsertChunks (?B ! k))"
      with run h(2) have "k < length ?B
                      \<and> process_source self w sid t calls
                          = (Inl e, calls @ map embed_call ?texts
                               @ map InsertChunks (take k ?B) @ [InsertChunks (?B ! k)])
                      \<and> call_failed w
                           (calls @ map embed_call ?texts @ map InsertChunks (take k ?B))
                           (InsertChunks (?B ! k))"
        by simp
      then show ?thesis by blast
    qed
    with h(3,4) have "length embs = length chunks
            \<and> (\<forall>i < length chunks.
                  embed_content w (calls @ map embed_call (take i ?texts))
                    (slice (?texts ! i) 0 10000) retrieval_document = Inr (embs ! i))
            \<and> (process_source self w sid t calls
                  = (Inr (length chunks), calls @ map embed_call ?texts @ map InsertChunks ?B)
                \<or> (\<exists>e k. k < length ?B
                      \<and> process_source self w sid t calls
                          = (Inl e, calls @ map embed_call ?texts
                               @ map InsertChunks (take k ?B) @ [InsertChunks (?B ! k)])
                      \<and> call_failed w
                           (calls @ map embed_call ?texts @ map InsertChunks (take k ?B))
                           (InsertChunks (?B ! k))))"
      by simp
    then show ?thesis by blast
  qed
qed

lemma call_failed_embed:
  "call_failed w h (embed_call x) = isl (embed_content w h (slice x 0 10000) retrieval_document)"
  by (simp add: call_failed_def embed_call_def)

text \<open>
  C10. In every run of \<open>process_source\<close>, with \<open>chunks\<close> the chunks of the text: the calls
  the run adds to the log are the embedding calls for the first \<open>k\<close> chunks, in chunk
  order, followed by insert calls. An insert call is in the log only when \<open>k\<close> is the
  number of chunks, so every chunk has its embedding generated before the first insert.
  The run stops embedding early only at a call that raised. If one of the embedding
  calls raised, no insert call was made and \<open>process_source\<close> ends in an error.
\<close>

theorem embedding_failure_writes_nothing:
  assumes ch: "chunks = (case split_text (chunker self) t of Inl e \<Rightarrow> [] | Inr cs \<Rightarrow> cs)"
  shows "\<exists>k ins. k \<le> length chunks
      \<and> snd (process_source self w sid t calls)
          = calls @ map embed_call (take k (map content chunks)) @ ins
      \<and> (\<forall>c \<in> set ins. is_insert c)
      \<and> (ins \<noteq> [] \<longrightarrow> k = length chunks)
      \<and> ((\<forall>i < k. \<not> call_failed w (calls @ map embed_call (take i (map content chunks)))
                       (embed_call (map content chunks ! i)))
           \<longrightarrow> k = length chunks)
      \<and> ((\<exists>i < k. call_failed w (calls @ map embed_call (take i (map content chunks)))
                       (embed_call (map content chunks ! i)))
           \<longrightarrow> ins = [] \<and> isl (fst (process_source self w sid t calls)))"
proof -
  let ?texts = "map content chunks"
  let ?P = "\<lambda>k ins. k \<le> length chunks
      \<and> snd (process_source self w sid t calls) = calls @ map embed_call (take k ?texts) @ ins
      \<and> (\<forall>c \<in> set ins. is_insert c)
      \<and> (ins \<noteq> [] \<longrightarrow> k = length chunks)
      \<and> ((\<forall>i < k. \<not> call_failed w (calls @ map embed_call (take i ?texts))
                       (embed_call (?texts ! i)))
           \<longrightarrow> k = length chunks)
      \<and> ((\<exists>i < k. call_failed w (calls @ map embed_call (take i ?texts))
                       (embed_call (?texts ! i)))
           \<longrightarrow> ins = [] \<and> isl (fst (process_source self w sid t calls)))"
  have none: "?P 0 []" if "chunks = []" "snd (process_source self w sid t calls) = calls"
    using that by simp
  show ?thesis
  proof (cases "split_text (chunker self) t")
    case (Inl e)
    with ch have "chunks = []" by simp
    moreover from Inl have "snd (process_source self w sid t calls) = calls"
      by (simp add: process_source_def)
    ultimately have "?P 0 []" by (rule none)
    then show ?thesis by blast
  next
    case (Inr cs)
    with ch have cs: "cs = chunks" by simp
    show ?thesis
    proof (cases "chunks = []")
      case True
      with Inr cs have "snd (process_source self w sid t calls) = calls"
        by (simp add: process_source_def)
      with True have "?P 0 []" by (rule none)
      then show ?thesis by blast
    next
      case False
      from Inr cs have st: "split_text (chunker self) t = Inr chunks" by simp
      from process_source_trace[OF st False, of w sid calls] show ?thesis
      proof (elim disjE exE conjE)
        fix e k
        assume h: "k < length chunks"
          "process_source self w sid t calls
             = (Inl e, calls @ map embed_call (take k ?texts) @ [embed_call (?texts ! k)])"
          "\<forall>i < k. \<not> call_failed w (calls @ map embed_call (take i ?texts)) (embed_call (?texts ! i))"
          "call_failed w (calls @ map embed_call (take k ?texts)) (embed_call (?texts ! k))"
        from h(1) have tk: "take (Suc k) ?texts = take k ?texts @ [?texts ! k]"
          by (simp add: take_Suc_conv_app_nth)
        have "?P (Suc k) []"
        proof (intro conjI)
          show "Suc k \<le> length chunks" using h(1) by simp
          show "snd (process_source self w sid t calls)
                  = calls @ map embed_call (take (Suc k) ?texts) @ []"
            using h(2) tk by simp
          show "\<forall>c \<in> set []. is_insert c" by simp
          show "[] \<noteq> [] \<longrightarrow> Suc k = length chunks" by simp
          show "(\<forall>i < Suc k. \<not> call_failed w (calls @ map embed_call (take i ?texts))
                       (embed_call (?texts ! i))) \<longrightarrow> Suc k = length chunks"
            using h(4) by blast
          show "(\<exists>i < Suc k. call_failed w (calls @ map embed_call (take i ?texts))
                       (embed_call (?texts ! i)))
                 \<longrightarrow> [] = [] \<and> isl (fst (process_source self w sid t calls))"
            using h(2) by simp
        qed
        then show ?thesis by blast
      next
        fix embs
        assume h: "length embs = length chunks"
          "\<forall>i < length chunks.
                  embed_content w (calls @ map embed_call (take i ?texts))
                    (slice (?texts ! i) 0 10000) retrieval_document = Inr (embs ! i)"
          "process_source self w sid t calls
             = (Inr (length chunks), calls @ map embed_call ?texts
                  @ map InsertChunks (record_batches (chunk_records sid chunks embs)))"
        have nofail: "\<not> (\<exists>i < length chunks.
                 call_failed w (calls @ map embed_call (take i ?texts)) (embed_call (?texts ! i)))"
          using h(2) by (simp add: call_failed_embed)
        have "?P (length chunks) (map InsertChunks (record_batches (chunk_records sid chunks embs)))"
        proof (intro conjI)
          show "length chunks \<le> length chunks" by simp
          show "snd (process_source self w sid t calls)
                  = calls @ map embed_call (take (length chunks) ?texts)
                      @ map InsertChunks (record_batches (chunk_records sid chunks embs))"
            using h(3) by simp
          show "\<forall>c \<in> set (map InsertChunks (record_batches (chunk_records sid chunks embs))).
                  is_insert c"
            by (auto simp: is_insert_def)
          show "map InsertChunks (record_batches (chunk_records sid chunks embs)) \<noteq> []
                  \<longrightarrow> length chunks = length chunks" by simp
          show "(\<forall>i < length chunks. \<not> call_failed w (calls @ map embed_call (take i ?texts))
                       (embed_call (?texts ! i))) \<longrightarrow> length chunks = length chunks"
            by simp
          show "(\<exists>i < length chunks. call_failed w (calls @ map embed_call (take i ?texts))
                       (embed_call (?texts ! i)))
                 \<longrightarrow> map InsertChunks (record_batches (chunk_records sid chunks embs)) = []
                   \<and> isl (fst (process_source self w sid t calls))"
            using nofail by blast
        qed
        then show ?thesis by blast
      next
        fix embs e k
        assume h: "length embs = length chunks"
          "\<forall>i < length chunks.
                  embed_content w (calls @ map embed_call (take i ?texts))
                    (slice (?texts ! i) 0 10000) retrieval_document = Inr (embs ! i)"
          "process_source self w sid t calls
             = (Inl e, calls @ map embed_call ?texts
                  @ map InsertChunks (take k (record_batches (chunk_records sid chunks embs)))
                  @ [InsertChunks (record_batches (chunk_records sid chunks embs) ! k)])"
        let ?ins = "map InsertChunks (take k (record_batches (chunk_records sid chunks embs)))
                  @ [InsertChunks (record_batches (chunk_records sid chunks embs) ! k)]"
        have nofail: "\<not> (\<exists>i < length chunks.
                 call_failed w (calls @ map embed_call (take i ?texts)) (embed_call (?texts ! i)))"
          using h(2) by (simp add: call_failed_embed)
        have "?P (length chunks) ?ins"
        proof (intro conjI)
          show "length chunks \<le> length chunks" by simp
          show "snd (process_source self w sid t calls)
                  = calls @ map embed_call (take (length chunks) ?texts) @ ?ins"
            using h(3) by simp
          show "\<forall>c \<in> set ?ins. is_insert c"
            by (auto simp: is_insert_def)
          show "?ins \<noteq> [] \<longrightarrow> length chunks = length chunks" by simp
          show "(\<forall>i < length chunks. \<not> call_failed w (calls @ map embed_call (take i ?texts))
                       (embed_call (?texts ! i))) \<longrightarrow> length chunks = length chunks"
            by simp
          show "(\<exists>i < length chunks. call_failed w (calls @ map embed_call (take i ?texts))
                       (embed_call (?texts ! i)))
                 \<longrightarrow> ?ins = [] \<and> isl (fst (process_source self w sid t calls))"
            using nofail by blast
        qed
        then show ?thesis by blast
      qed
    qed
  qed
qed

theorem embedding_failure_writes_nothing_witness:
  "process_source \<lparr>chunker = TextChunker 3 0 None\<rparr> flaky_provider_world ''s1'' ''aaa bbb ccc'' []
     = (Inl ProviderError, [embed_call ''aaa'', embed_call ''bbb''])
   \<and> \<not> call_failed flaky_provider_world [] (embed_call ''aaa'')
   \<and> call_failed flaky_provider_world [embed_call ''aaa''] (embed_call ''bbb'')
   \<and> (\<exists>k ins. k \<le> 3
      \<and> snd (process_source \<lparr>chunker = TextChunker 3 0 None\<rparr> flaky_provider_world ''s1''
                ''aaa bbb ccc'' [])
          = [] @ map embed_call (take k [''aaa'', ''bbb'', ''ccc'']) @ ins
      \<and> (\<forall>c \<in> set ins. is_insert c)
      \<and> (ins \<noteq> [] \<longrightarrow> k = 3)
      \<and> ((\<exists>i < k. call_failed flaky_provider_world
                       ([] @ map embed_call (take i [''aaa'', ''bbb'', ''ccc'']))
                       (embed_call ([''aaa'', ''bbb'', ''ccc''] ! i)))
           \<longrightarrow> ins = []
             \<and> isl (fst (process_source \<lparr>chunker = TextChunker 3 0 None\<rparr> flaky_provider_world
                          ''s1'' ''aaa bbb ccc'' []))))"
proof -
  let ?chunks = "[\<lparr>chunk_index = 0, content = ''aaa'', token_count = 0\<rparr>,
                  \<lparr>chunk_index = 1, content = ''bbb'', token_count = 0\<rparr>,
                  \<lparr>chunk_index = 2, content = ''ccc'', token_count = 0\<rparr>]"
  have st: "split_text (chunker \<lparr>chunker = TextChunker 3 0 None\<rparr>) ''aaa bbb ccc'' = Inr ?chunks"
    by code_simp
  have ch: "?chunks = (case split_text (chunker \<lparr>chunker = TextChunker 3 0 None\<rparr>) ''aaa bbb ccc''
                       of Inl e \<Rightarrow> [] | Inr cs \<Rightarrow> cs)"
    by (simp only: st sum.case)
  have run: "process_source \<lparr>chunker = TextChunker 3 0 None\<rparr> flaky_provider_world ''s1''
               ''aaa bbb ccc'' []
     = (Inl ProviderError, [embed_call ''aaa'', embed_call ''bbb''])"
    by code_simp
  have ok1: "\<not> call_failed flaky_provider_world [] (embed_call ''aaa'')"
    by (simp add: call_failed_def embed_call_def flaky_provider_world_def steady_world_def)
  have bad2: "call_failed flaky_provider_world [embed_call ''aaa''] (embed_call ''bbb'')"
    by (simp add: call_failed_def embed_call_def flaky_provider_world_def steady_world_def)
  from embedding_failure_writes_nothing [OF ch, of flaky_provider_world "''s1''" "[]"]
  obtain k ins where
    h: "k \<le> length ?chunks
      \<and> snd (process_source \<lparr>chunker = TextChunker 3 0 None\<rparr> flaky_provider_world ''s1''
                ''aaa bbb ccc'' [])
          = [] @ map embed_call (take k (map content ?chunks)) @ ins
      \<and> (\<forall>c \<in> set ins. is_insert c)
      \<and> (ins \<noteq> [] \<longrightarrow> k = length ?chunks)
      \<and> ((\<forall>i < k. \<not> call_failed flaky_provider_world
                       ([] @ map embed_call (take i (map content ?chunks)))
                       (embed_call (map content ?chunks ! i)))
           \<longrightarrow> k = length ?chunks)
      \<and> ((\<exists>i < k. call_failed flaky_provider_world
                       ([] @ map embed_call (take i (map content ?chunks)))
                       (embed_call (map content ?chunks ! i)))
           \<longrightarrow> ins = []
             \<and> isl (fst (process_source \<lparr>chunker = TextChunker 3 0 None\<rparr> flaky_provider_world
                          ''s1'' ''aaa bbb ccc'' [])))"
    by (elim exE)
  have texts: "map content ?chunks = [''aaa'', ''bbb'', ''ccc'']" by simp
  have len: "length ?chunks = 3" by simp
  from h have "k \<le> 3
      \<and> snd (process_source \<lparr>chunker = TextChunker 3 0 None\<rparr> flaky_provider_world ''s1''
                ''aaa bbb ccc'' [])
          = [] @ map embed_call (take k [''aaa'', ''bbb'', ''ccc'']) @ ins
      \<and> (\<forall>c \<in> set ins. is_insert c)
      \<and> (ins \<noteq> [] \<longrightarrow> k = 3)
      \<and> ((\<exists>i < k. call_failed flaky_provider_world
                       ([] @ map embed_call (take i [''aaa'', ''bbb'', ''ccc'']))
                       (embed_call ([''aaa'', ''bbb'', ''ccc''] ! i)))
           \<longrightarrow> ins = []
             \<and> isl (fst (process_source \<lparr>chunker = TextChunker 3 0 None\<rparr> flaky_provider_world
                          ''s1'' ''aaa bbb ccc'' [])))"
    unfolding texts len by (elim conjE) (intro conjI)
  then have ex: "\<exists>k ins. k \<le> 3
      \<and> snd (process_source \<lparr>chunker = TextChunker 3 0 None\<rparr> flaky_provider_world ''s1''
                ''aaa bbb ccc'' [])
          = [] @ map embed_call (take k [''aaa'', ''bbb'', ''ccc'']) @ ins
      \<and> (\<forall>c \<in> set ins. is_insert c)
      \<and> (ins \<noteq> [] \<longrightarrow> k = 3)
      \<and> ((\<exists>i < k. call_failed flaky_provider_world
                       ([] @ map embed_call (take i [''aaa'', ''bbb'', ''ccc'']))
                       (embed_call ([''aaa'', ''bbb'', ''ccc''] ! i)))
           \<longrightarrow> ins = []
             \<and> isl (fst (process_source \<lparr>chunker = TextChunker 3 0 None\<rparr> flaky_provider_world
                          ''s1'' ''aaa bbb ccc'' [])))"
    by (intro exI)
  from run ok1 bad2 ex show ?thesis by (intro conjI)
qed

section \<open>Ingestion: batched writes\<close>

lemma norm_index_nat: "norm_index n (int a) = min a n"
  by (simp add: norm_index_def)

lemma slice_batch: "slice xs (int a) (int a + int m) = take m (drop a xs)"
proof -
  have "int a + int m = int (a + m)" by simp
  then have "slice xs (int a) (int a + int m) = take (min (a + m) (length xs) - min a (length xs)) (drop (min a (length xs)) xs)"
    unfolding slice_def Let_def by (simp only: norm_index_nat)
  also have "\<dots> = take m (drop a xs)"
  proof (cases "a \<le> length xs")
    case True
    then have "min (a + m) (length xs) - min a (length xs) = min m (length xs - a)" by linarith
    moreover have "take (min m (length xs - a)) (drop a xs) = take m (drop a xs)"
      by (simp add: min_def)
    ultimately show ?thesis using True by (simp add: min_absorb1)
  next
    case False
    then show ?thesis by simp
  qed
  finally show ?thesis .
qed

lemma range0_50: "range0 (int n) batch_size = map (\<lambda>k. int (k * 50)) [0 ..< (n + 49) div 50]"
proof -
  have "(int n + 50 - 1) div 50 = int ((n + 49) div 50)" by (simp add: zdiv_int)
  then have "nat ((int n + 50 - 1) div 50) = (n + 49) div 50" by simp
  then show ?thesis unfolding range0_def batch_size_def by simp
qed

lemma batches_eq:
  "map (\<lambda>i. slice xs i (i + batch_size)) (range0 (int (length xs)) batch_size)
     = map (\<lambda>k. take 50 (drop (k * 50) xs)) [0 ..< (length xs + 49) div 50]"
proof -
  have "slice xs (int (k * 50)) (int (k * 50) + batch_size) = take 50 (drop (k * 50) xs)" for k
    using slice_batch[of xs "k * 50" 50] by (simp add: batch_size_def)
  then show ?thesis unfolding range0_50 by (simp add: o_def)
qed

lemma concat_takes: "concat (map (\<lambda>k. take m (drop (k * m) xs)) [0 ..< j]) = take (j * m) xs"
proof (induction j)
  case 0
  then show ?case by simp
next
  case (Suc j)
  have "take (j * m) xs @ take m (drop (j * m) xs) = take (j * m + m) xs"
    by (simp add: take_add)
  with Suc show ?case by (simp add: add.commute)
qed

lemma concat_batches_50: "concat (map (\<lambda>k. take 50 (drop (k * 50) xs)) [0 ..< (length xs + 49) div 50]) = xs"
proof -
  have "(length xs + 49) div 50 * 50 + (length xs + 49) mod 50 = length xs + 49" by simp
  moreover have "(length xs + 49) mod 50 < 50" by simp
  ultimately have "length xs \<le> (length xs + 49) div 50 * 50" by linarith
  then show ?thesis by (simp add: concat_takes)
qed

lemma sizes_batches_50:
  "map length (map (\<lambda>k. take 50 (drop (k * 50) xs)) [0 ..< (length xs + 49) div 50])
     = replicate (length xs div 50) 50 @ (if length xs mod 50 = 0 then [] else [length xs mod 50])"
proof -
  define n q r where "n = length xs" and "q = n div 50" and "r = n mod 50"
  have n: "n = q * 50 + r" and r: "r < 50"
    by (simp_all add: q_def r_def)
  have cnt: "(n + 49) div 50 = (if r = 0 then q else Suc q)"
  proof (cases "r = 0")
    case True
    have "50 * q \<le> n + 49" "n + 49 < 50 * Suc q"
      using n True by simp_all
    then have "(n + 49) div 50 = q"
      by (rule div_nat_eqI)
    with True show ?thesis by simp
  next
    case False
    have "50 * Suc q \<le> n + 49" "n + 49 < 50 * Suc (Suc q)"
      using n r False by simp_all
    then have "(n + 49) div 50 = Suc q"
      by (rule div_nat_eqI)
    with False show ?thesis by simp
  qed
  have full: "map (\<lambda>k. length (take 50 (drop (k * 50) xs))) [0 ..< q] = replicate q 50"
  proof -
    have "length (take 50 (drop (k * 50) xs)) = 50" if "k < q" for k
    proof -
      from that n have "k * 50 + 50 \<le> n" by linarith
      then show ?thesis by (simp add: n_def)
    qed
    then have "map (\<lambda>k. length (take 50 (drop (k * 50) xs))) [0 ..< q] = map (\<lambda>k. 50) [0 ..< q]"
      by (intro map_cong) auto
    then show ?thesis by (simp add: map_replicate_const)
  qed
  have rest: "length (take 50 (drop (q * 50) xs)) = r"
    using n r by (simp add: n_def)
  have "map length (map (\<lambda>k. take 50 (drop (k * 50) xs)) [0 ..< (n + 49) div 50])
      = replicate q 50 @ (if r = 0 then [] else [r])"
    unfolding cnt using full rest by (simp add: o_def)
  then show ?thesis by (simp add: n_def q_def r_def)
qed

lemma chunk_records_fields:
  assumes "length embs = length chunks"
  shows "length (chunk_records sid chunks embs) = length chunks"
    and "map r_content (chunk_records sid chunks embs) = map content chunks"
    and "map r_chunk_index (chunk_records sid chunks embs) = map chunk_index chunks"
    and "map r_embedding (chunk_records sid chunks embs) = embs"
proof -
  show "length (chunk_records sid chunks embs) = length chunks"
    using assms by (simp add: chunk_records_def)
  have "map r_content (chunk_records sid chunks embs) = map content (map fst (zip chunks embs))"
    by (simp add: chunk_records_def o_def split_def)
  then show "map r_content (chunk_records sid chunks embs) = map content chunks"
    using assms by simp
  have "map r_chunk_index (chunk_records sid chunks embs) = map chunk_index (map fst (zip chunks embs))"
    by (simp add: chunk_records_def o_def split_def)
  then show "map r_chunk_index (chunk_records sid chunks embs) = map chunk_index chunks"
    using assms by simp
  have "map r_embedding (chunk_records sid chunks embs) = map snd (zip chunks embs)"
    by (simp add: chunk_records_def o_def split_def)
  then show "map r_embedding (chunk_records sid chunks embs) = embs"
    using assms by simp
qed

lemma batches_of_120:
  assumes "length xs = 120"
  shows "map length (map (\<lambda>i. slice xs i (i + batch_size)) (range0 (int (length xs)) batch_size))
           = [50, 50, 20]"
proof -
  have "replicate (120 div 50) (50::nat) @ (if (120::nat) mod 50 = 0 then [] else [120 mod 50])
      = [50, 50, 20]"
    by code_simp
  moreover have "map length (map (\<lambda>i. slice xs i (i + batch_size)) (range0 (int (length xs)) batch_size))
      = replicate (length xs div 50) 50 @ (if length xs mod 50 = 0 then [] else [length xs mod 50])"
    by (simp only: batches_eq sizes_batches_50)
  ultimately show ?thesis by (simp only: assms)
qed

lemma steady_never_fails: "\<not> call_failed steady_world h c"
  by (cases c) (simp_all add: call_failed_def steady_world_def)

lemma failed_call_in_log:
  assumes "snd R = H @ [c]" and "call_failed w H c" and "length calls \<le> length H"
  shows "\<exists>i. length calls \<le> i \<and> i < length (snd R)
           \<and> call_failed w (take i (snd R)) (snd R ! i)"
proof (intro exI conjI)
  show "length calls \<le> length H" by (rule assms(3))
  show "length H < length (snd R)" using assms(1) by simp
  show "call_failed w (take (length H) (snd R)) (snd R ! length H)"
    using assms(1,2) by simp
qed

lemma record_batches_eq:
  "record_batches xs = map (\<lambda>k. take 50 (drop (k * 50) xs)) [0 ..< (length xs + 49) div 50]"
  unfolding record_batches_def by (rule batches_eq)

text \<open>
  C7, as stated, fails when a call to the store or to the provider raises: the chunking
  of \<open>"hello"\<close> yields one chunk, and with a store whose insert raises
  \<open>process_source\<close> ends in that error instead of returning 1.
\<close>

theorem ingest_store_failure_raises:
  "split_text (chunker RAGService) ''hello''
     = Inr [\<lparr>chunk_index = 0, content = ''hello'', token_count = 1\<rparr>]
   \<and> process_source RAGService broken_insert_world ''s1'' ''hello'' []
     = (Inl StoreError,
        [EmbedContent ''hello'' retrieval_document,
         InsertChunks [\<lparr>r_source_id = ''s1'', r_chunk_index = 0, r_content = ''hello'',
                        r_embedding = [1], r_token_count = 1\<rparr>]])"
  by code_simp

text \<open>
  C7, amended. When chunking yields \<open>n \<ge> 1\<close> chunks and none of the calls that the run
  adds to the log raised, \<open>process_source\<close> returns \<open>n\<close>; the log holds the embedding
  call of every chunk, in chunk order, and then one insert call per batch. The batches
  concatenated are the chunk records in chunk order, each record carrying the content
  and index of its chunk and the embedding the provider answered for it. There are
  \<open>ceil(n/50)\<close> batches, and their sizes are \<open>n div 50\<close> times 50 followed by \<open>n mod 50\<close>
  when that is not zero. For 120 records the sizes are 50, 50, 20 (\<open>batches_of_120\<close>).
\<close>

theorem ingest_writes_batches_of_50:
  assumes chunks: "split_text (chunker self) t = Inr chunks" and ne: "chunks \<noteq> []"
    and ok: "\<forall>i. length calls \<le> i \<and> i < length (snd (process_source self w sid t calls))
               \<longrightarrow> \<not> call_failed w (take i (snd (process_source self w sid t calls)))
                                   (snd (process_source self w sid t calls) ! i)"
  shows "\<exists>embs batches.
      process_source self w sid t calls
        = (Inr (length chunks),
           calls @ map embed_call (map content chunks) @ map InsertChunks batches)
    \<and> length embs = length chunks
    \<and> (\<forall>i < length chunks.
          embed_content w (calls @ map embed_call (take i (map content chunks)))
            (slice (content (chunks ! i)) 0 10000) retrieval_document = Inr (embs ! i))
    \<and> concat batches = chunk_records sid chunks embs
    \<and> map r_content (concat batches) = map content chunks
    \<and> map r_chunk_index (concat batches) = map chunk_index chunks
    \<and> map r_embedding (concat batches) = embs
    \<and> length batches = (length chunks + 49) div 50
    \<and> map length batches
        = replicate (length chunks div 50) 50
          @ (if length chunks mod 50 = 0 then [] else [length chunks mod 50])"
proof -
  let ?texts = "map content chunks"
  let ?R = "process_source self w sid t calls"
  have nofail: "\<not> (\<exists>i. length calls \<le> i \<and> i < length (snd ?R)
           \<and> call_failed w (take i (snd ?R)) (snd ?R ! i))"
    using ok by blast
  from process_source_trace[OF chunks ne, of w sid calls] show ?thesis
  proof (elim disjE exE conjE)
    fix e k
    assume h: "?R = (Inl e, calls @ map embed_call (take k ?texts) @ [embed_call (?texts ! k)])"
      "call_failed w (calls @ map embed_call (take k ?texts)) (embed_call (?texts ! k))"
    from h(1) have "snd ?R = (calls @ map embed_call (take k ?texts)) @ [embed_call (?texts ! k)]"
      by simp
    from failed_call_in_log[OF this h(2), of calls] nofail show ?thesis by simp
  next
    fix embs e k
    let ?B = "record_batches (chunk_records sid chunks embs)"
    assume h: "?R = (Inl e, calls @ map embed_call ?texts
                  @ map InsertChunks (take k ?B) @ [InsertChunks (?B ! k)])"
      "call_failed w (calls @ map embed_call ?texts @ map InsertChunks (take k ?B))
                           (InsertChunks (?B ! k))"
    from h(1) have "snd ?R = (calls @ map embed_call ?texts @ map InsertChunks (take k ?B))
                       @ [InsertChunks (?B ! k)]"
      by simp
    from failed_call_in_log[OF this h(2), of calls] nofail show ?thesis by simp
  next
    fix embs
    let ?recs = "chunk_records sid chunks embs"
    let ?B = "record_batches ?recs"
    assume h: "length embs = length chunks"
      "\<forall>i < length chunks.
                  embed_content w (calls @ map embed_call (take i ?texts))
                    (slice (?texts ! i) 0 10000) retrieval_document = Inr (embs ! i)"
      "?R = (Inr (length chunks), calls @ map embed_call ?texts @ map InsertChunks ?B)"
    have rlen: "length ?recs = length chunks"
      by (rule chunk_records_fields(1)[OF h(1)])
    have cat: "concat ?B = ?recs"
      unfolding record_batches_eq by (rule concat_batches_50)
    have sizes: "map length ?B
        = replicate (length chunks div 50) 50
          @ (if length chunks mod 50 = 0 then [] else [length chunks mod 50])"
      unfolding record_batches_eq using sizes_batches_50[of ?recs] by (simp only: rlen)
    have cnt: "length ?B = (length chunks + 49) div 50"
      by (simp add: record_batches_eq rlen)
    have answers: "\<forall>i < length chunks.
          embed_content w (calls @ map embed_call (take i ?texts))
            (slice (content (chunks ! i)) 0 10000) retrieval_document = Inr (embs ! i)"
      using h(2) by simp
    have "?R = (Inr (length chunks), calls @ map embed_call ?texts @ map InsertChunks ?B)
      \<and> length embs = length chunks
      \<and> (\<forall>i < length chunks.
          embed_content w (calls @ map embed_call (take i ?texts))
            (slice (content (chunks ! i)) 0 10000) retrieval_document = Inr (embs ! i))
      \<and> concat ?B = chunk_records sid chunks embs
      \<and> map r_content (concat ?B) = map content chunks
      \<and> map r_chunk_index (concat ?B) = map chunk_index chunks
      \<and> map r_embedding (concat ?B) = embs
      \<and> length ?B = (length chunks + 49) div 50
      \<and> map length ?B
        = replicate (length chunks div 50) 50
          @ (if length chunks mod 50 = 0 then [] else [length chunks mod 50])"
      using h(1,3) answers cat sizes cnt chunk_records_fields(2,3,4)[OF h(1), of sid]
      by (simp only: simp_thms)
    then show ?thesis by blast
  qed
qed


theorem ingest_writes_batches_of_50_witness:
  "\<exists>embs batches.
      process_source \<lparr>chunker = TextChunker 1 0 None\<rparr> steady_world ''s1''
        (join '' '' (map (\<lambda>c. [c]) ''abcdefghijklmnopqrstuvwxyzABCDEFGHIJKLMNOPQRSTUVWXY'')) []
        = (Inr 51,
           [] @ map embed_call (map (\<lambda>c. [c]) ''abcdefghijklmnopqrstuvwxyzABCDEFGHIJKLMNOPQRSTUVWXY'')
              @ map InsertChunks batches)
    \<and> length embs = 51
    \<and> map r_content (concat batches)
        = map (\<lambda>c. [c]) ''abcdefghijklmnopqrstuvwxyzABCDEFGHIJKLMNOPQRSTUVWXY''
    \<and> map r_chunk_index (concat batches) = [0 ..< 51]
    \<and> map r_embedding (concat batches) = embs
    \<and> length batches = 2
    \<and> map length batches = [50, 1]"
proof -
  let ?L = "''abcdefghijklmnopqrstuvwxyzABCDEFGHIJKLMNOPQRSTUVWXY''"
  let ?svc = "\<lparr>chunker = TextChunker 1 0 None\<rparr>"
  let ?T = "join '' '' (map (\<lambda>c. [c]) ?L)"
  let ?CH = "map (\<lambda>(i, c). \<lparr>chunk_index = i, content = [c], token_count = 0\<rparr>) (enumerate 0 ?L)"
  have st: "split_text (chunker ?svc) ?T = Inr ?CH"
    by code_simp
  have ne: "?CH \<noteq> []" by code_simp
  have ok: "\<forall>i. length ([] :: call list) \<le> i
               \<and> i < length (snd (process_source ?svc steady_world ''s1'' ?T []))
               \<longrightarrow> \<not> call_failed steady_world
                       (take i (snd (process_source ?svc steady_world ''s1'' ?T [])))
                       (snd (process_source ?svc steady_world ''s1'' ?T []) ! i)"
    by (simp only: steady_never_fails simp_thms)
  have len: "length ?CH = 51" by code_simp
  have cont: "map content ?CH = map (\<lambda>c. [c]) ?L" by code_simp
  have idx: "map chunk_index ?CH = [0 ..< 51]" by code_simp
  have cnt: "(51 + 49) div 50 = (2::nat)" by simp
  have sz: "replicate (51 div 50) (50::nat) @ (if (51::nat) mod 50 = 0 then [] else [51 mod 50])
              = [50, 1]"
    by code_simp
  from ingest_writes_batches_of_50 [OF st ne ok]
  obtain embs batches where
    h: "process_source ?svc steady_world ''s1'' ?T []
        = (Inr (length ?CH), [] @ map embed_call (map content ?CH) @ map InsertChunks batches)
    \<and> length embs = length ?CH
    \<and> (\<forall>i < length ?CH.
          embed_content steady_world ([] @ map embed_call (take i (map content ?CH)))
            (slice (content (?CH ! i)) 0 10000) retrieval_document = Inr (embs ! i))
    \<and> concat batches = chunk_records ''s1'' ?CH embs
    \<and> map r_content (concat batches) = map content ?CH
    \<and> map r_chunk_index (concat batches) = map chunk_index ?CH
    \<and> map r_embedding (concat batches) = embs
    \<and> length batches = (length ?CH + 49) div 50
    \<and> map length batches
        = replicate (length ?CH div 50) 50
          @ (if length ?CH mod 50 = 0 then [] else [length ?CH mod 50])"
    by (elim exE)
  from h have a: "process_source ?svc steady_world ''s1'' ?T []
        = (Inr 51, [] @ map embed_call (map (\<lambda>c. [c]) ?L) @ map InsertChunks batches)"
    unfolding len cont by (elim conjE)
  from h have b: "length embs = 51" unfolding len by (elim conjE)
  from h have c: "map r_content (concat batches) = map (\<lambda>c. [c]) ?L"
    unfolding cont by (elim conjE)
  from h have d: "map r_chunk_index (concat batches) = [0 ..< 51]"
    unfolding idx by (elim conjE)
  from h have e: "map r_embedding (concat batches) = embs" by (elim conjE)
  from h have f: "length batches = 2" unfolding len cnt by (elim conjE)
  from h have g: "map length batches = [50, 1]" unfolding len sz by (elim conjE)
  from a b c d e f g show ?thesis by (intro exI conjI)
qed

section \<open>Query: fallback and source attribution\<close>

text \<open>
  C6, as stated, fails for \<open>RAGService.search\<close>: when the similarity search raises,
  \<open>search\<close> ends in that error; it calls no fallback builder (the log holds the
  embedding call and the similarity call only).
\<close>

theorem search_propagates_store_error:
  "search RAGService broken_store_world ''q'' ''n1'' None 5 []
   = (Inl StoreError,
      [EmbedContent ''q'' retrieval_query,
       MatchSourceChunks \<lparr>query_embedding = [1], match_count = 5, p_notebook_id = ''n1'',
                          p_source_ids = None\<rparr>])"
  by (simp add: search_def generate_query_embedding_def broken_store_world_def steady_world_def
      strip_def isspace_def truthy_ids_def)

text \<open>
  C6, amended. The fallback is in \<open>get_rag_context\<close>, the caller of \<open>search\<close>: whenever
  \<open>search\<close> raises or returns no chunks, \<open>get_rag_context\<close> returns exactly what
  \<open>get_sources_content\<close> returns for the same notebook and the same source filter,
  continuing from the log that \<open>search\<close> left. The value returned is the triple
  (context, sources, source names); it has no field that says a fallback was used.
\<close>

theorem rag_context_falls_back:
  assumes "search RAGService w query notebook_id
             (if truthy_ids source_ids then source_ids else None) count calls = (r, calls1)"
    and "isl r \<or> r = Inr []"
  shows "get_rag_context w notebook_id query source_ids count calls
           = get_sources_content w notebook_id source_ids calls1"
  using assms by (cases r) (auto simp: get_rag_context_def)

theorem rag_context_falls_back_witness:
  "search RAGService steady_world ''q'' ''n1'' None 10 []
     = (Inr [],
        [EmbedContent ''q'' retrieval_query,
         MatchSourceChunks \<lparr>query_embedding = [1], match_count = 10, p_notebook_id = ''n1'',
                            p_source_ids = None\<rparr>])
   \<and> get_rag_context steady_world ''n1'' ''q'' None 10 []
     = get_sources_content steady_world ''n1'' None
        [EmbedContent ''q'' retrieval_query,
         MatchSourceChunks \<lparr>query_embedding = [1], match_count = 10, p_notebook_id = ''n1'',
                            p_source_ids = None\<rparr>]"
proof -
  have s: "search RAGService steady_world ''q'' ''n1''
              (if truthy_ids None then None else None) 10 []
     = (Inr [],
        [EmbedContent ''q'' retrieval_query,
         MatchSourceChunks \<lparr>query_embedding = [1], match_count = 10, p_notebook_id = ''n1'',
                            p_source_ids = None\<rparr>])"
    by (simp add: search_def generate_query_embedding_def steady_world_def strip_def isspace_def
        truthy_ids_def data_or_empty_def)
  have e: "isl (Inr [] :: error + search_row list) \<or> (Inr [] :: error + search_row list) = Inr []"
    by simp
  from rag_context_falls_back [OF s e] s show ?thesis by simp
qed

text \<open>
  C8. The claim is that the source records and the source names returned by a search
  that found chunks are each in order of first appearance in the ranked result. The
  names are: the loop appends a name the first time it is seen. The records are listed
  in the iteration order of \<open>set(...)\<close> over the source ids, which is not the ranked
  order. With chunks ranked b, a and a set that iterates a, b, the names come back
  Beta, Alpha and the records a, b.
\<close>

theorem source_records_in_set_order:
  "(case get_rag_context two_source_world ''n1'' ''q'' None 10 [] of
      (Inr (ctx, sources_list, source_names), calls) \<Rightarrow>
         map s_id sources_list = [''a'', ''b''] \<and> source_names = [''Beta'', ''Alpha'']
    | _ \<Rightarrow> False)"
  by (simp add: get_rag_context_def search_def generate_query_embedding_def
      two_source_world_def steady_world_def strip_def isspace_def truthy_ids_def
      data_or_empty_def RAGService_def source_a_def source_b_def Let_def)

section \<open>Chunking: overlap\<close>

lemma overlap_text_last:
  assumes "0 < chunk_overlap self"
  shows "overlap_text self p
           = drop (length p - min (nat (chunk_overlap self)) (length p)) p"
proof (cases "int (length p) > chunk_overlap self")
  case True
  define n ov where "n = length p" and "ov = chunk_overlap self"
  from True assms have ovn: "0 < ov" "ov < int n" by (simp_all add: n_def ov_def)
  then have "max (- ov + int n) 0 = int n - ov" by linarith
  moreover from ovn have "nat (int n - ov) = n - nat ov" by linarith
  ultimately have "norm_index n (- ov) = n - nat ov"
    using ovn(1) by (simp only: norm_index_def neg_less_0_iff_less if_True)
  then have "norm_index (length p) (- chunk_overlap self) = length p - nat (chunk_overlap self)"
    by (simp only: n_def ov_def)
  moreover from True assms have "min (nat (chunk_overlap self)) (length p) = nat (chunk_overlap self)"
    by linarith
  ultimately show ?thesis using True by (simp add: overlap_text_def slice_from_def)
next
  case False
  then have "min (nat (chunk_overlap self)) (length p) = length p" by linarith
  with False show ?thesis by (simp add: overlap_text_def)
qed

lemma add_overlap_nth:
  assumes "2 \<le> length chunks" and "0 < chunk_overlap self"
  shows "length (add_overlap self chunks) = length chunks"
    and "add_overlap self chunks ! 0 = chunks ! 0"
    and "0 < i \<Longrightarrow> i < length chunks \<Longrightarrow>
           add_overlap self chunks ! i
             = overlap_text self (chunks ! (i - 1)) @ '' '' @ chunks ! i"
proof -
  from assms(1) have big: "\<not> length chunks \<le> 1" and pos: "0 < length chunks" by auto
  show "length (add_overlap self chunks) = length chunks"
    using big by (simp add: add_overlap_def)
  show "add_overlap self chunks ! 0 = chunks ! 0"
    using big pos by (simp add: add_overlap_def nth_map_upt)
  show "add_overlap self chunks ! i
             = overlap_text self (chunks ! (i - 1)) @ '' '' @ chunks ! i"
    if "0 < i" "i < length chunks"
    using big that assms(2) by (simp add: add_overlap_def nth_map_upt)
qed

text \<open>
  C1, as stated, fails twice. First, \<open>split_text\<close> strips every chunk after the overlap
  was added: with chunk size 3 and overlap 1 the segments of \<open>"ab \n\ncd"\<close> are
  \<open>"ab "\<close> and \<open>"cd"\<close>, and the second returned chunk is \<open>"cd"\<close>, not the
  last character of \<open>"ab "\<close>, a space and \<open>"cd"\<close>. Second, the overlap is added at the
  end of every call of \<open>_recursive_split\<close>, and the prefixed last chunk of an inner
  call is what the outer loop goes on with, so the overlap moves split boundaries: with
  chunk size 7 the text \<open>"aaa bbbb\n\nc"\<close> gives three chunks at overlap 2 and two
  chunks at overlap 0.
\<close>

theorem overlap_not_a_single_pass:
  "segments (TextChunker 3 1 None) [CHR 0x0A, CHR 0x0A]
       (\<lambda>split. recursive_split (TextChunker 3 1 None) split (tl default_separators))
       (''ab '' @ [CHR 0x0A, CHR 0x0A] @ ''cd'')
     = Inr [''ab '', ''cd'']
   \<and> split_text (TextChunker 3 1 None) (''ab '' @ [CHR 0x0A, CHR 0x0A] @ ''cd'')
     = Inr [\<lparr>chunk_index = 0, content = ''ab'', token_count = 0\<rparr>,
            \<lparr>chunk_index = 1, content = ''cd'', token_count = 1\<rparr>]
   \<and> split_text (TextChunker 7 2 None) (''aaa bbbb'' @ [CHR 0x0A, CHR 0x0A] @ ''c'')
     = Inr [\<lparr>chunk_index = 0, content = ''aaa'', token_count = 0\<rparr>,
            \<lparr>chunk_index = 1, content = ''aa aa aa aa bbbb'', token_count = 4\<rparr>,
            \<lparr>chunk_index = 2, content = ''bb c'', token_count = 1\<rparr>]
   \<and> split_text (TextChunker 7 0 None) (''aaa bbbb'' @ [CHR 0x0A, CHR 0x0A] @ ''c'')
     = Inr [\<lparr>chunk_index = 0, content = ''aaa'', token_count = 0\<rparr>,
            \<lparr>chunk_index = 1, content = ''bbbb'' @ [CHR 0x0A, CHR 0x0A] @ ''c'',
             token_count = 1\<rparr>]"
  by code_simp

lemma split_step_fit:
  assumes "int (length split) \<le> chunk_size self" and "chunk_size self' = chunk_size self"
  shows "split_step self' sep rec' split st = split_step self sep rec split st"
  using assms by (cases st) (simp add: split_step_def Let_def)

lemma split_loop_fit:
  assumes "\<forall>p \<in> set splits. int (length p) \<le> chunk_size self"
    and "chunk_size self' = chunk_size self"
  shows "split_loop self' sep rec' splits st = split_loop self sep rec splits st"
  using assms(1)
proof (induction splits arbitrary: st)
  case Nil
  then show ?case by simp
next
  case (Cons x xs)
  then have "int (length x) \<le> chunk_size self" by simp
  from split_step_fit[OF this assms(2), of sep rec' st rec]
  have "split_step self' sep rec' x st = split_step self sep rec x st" .
  with Cons show ?case by (simp split: sum.splits)
qed

lemma segments_fit:
  assumes "\<forall>p \<in> set (split_str sep t). int (length p) \<le> chunk_size self"
    and "chunk_size self' = chunk_size self"
  shows "segments self' sep rec' t = segments self sep rec t"
  unfolding segments_def
  by (simp only: split_loop_fit[OF assms, of sep rec' "([], [])" rec])

lemma contents_of_enumerate:
  "map content
     (map (\<lambda>(i, chunk). \<lparr>chunk_index = i, content = strip chunk,
                           token_count = estimate_tokens chunk\<rparr>)
        (filter (\<lambda>(i, chunk). strip chunk \<noteq> []) (enumerate n out)))
   = map strip (filter (\<lambda>c. strip c \<noteq> []) out)"
  by (induction out arbitrary: n) simp_all

lemma split_text_contents:
  assumes "recursive_split self (strip t0) (separators self) = Inr out" and "strip t0 \<noteq> []"
  shows "\<exists>returned. split_text self t0 = Inr returned
           \<and> map content returned = map strip (filter (\<lambda>c. strip c \<noteq> []) out)"
proof -
  from assms(2) have "t0 \<noteq> []" by (auto simp: strip_def)
  with assms have "split_text self t0
      = Inr (map (\<lambda>(i, chunk). \<lparr>chunk_index = i, content = strip chunk,
                                  token_count = estimate_tokens chunk\<rparr>)
               (filter (\<lambda>(i, chunk). strip chunk \<noteq> []) (enumerate 0 out)))"
    by (simp add: split_text_def)
  with contents_of_enumerate[of 0 out] show ?thesis by blast
qed

text \<open>
  C1, amended. Take a text whose pieces under the first separator each have at most
  chunk size characters, so that no nested split is made, a positive overlap \<open>O\<close>, and
  a segment list \<open>chunks\<close> of at least two segments. Then \<open>_recursive_split\<close> returns as
  many chunks as there are segments, the first unchanged, and every later chunk \<open>i\<close> is
  the last \<open>min(O, len(chunks[i-1]))\<close> characters of segment \<open>i-1\<close>, one space, and
  segment \<open>i\<close>. \<open>split_text\<close> returns these chunks stripped, in order, without the
  whitespace-only ones. The segment list is the same for every value of the overlap.
\<close>

theorem overlap_prefix_of_previous_segment:
  assumes seps: "separators self = separator # rest" and sep: "separator \<noteq> []"
    and t: "strip t0 \<noteq> []"
    and fit: "\<forall>p \<in> set (split_str separator (strip t0)). int (length p) \<le> chunk_size self"
    and segs: "segments self separator (\<lambda>split. recursive_split self split rest) (strip t0)
                 = Inr chunks"
    and n: "2 \<le> length chunks" and ov: "0 < chunk_overlap self"
  shows "\<exists>out returned.
        recursive_split self (strip t0) (separators self) = Inr out
      \<and> length out = length chunks \<and> out ! 0 = chunks ! 0
      \<and> (\<forall>i. 0 < i \<and> i < length chunks \<longrightarrow>
            out ! i = drop (length (chunks ! (i - 1))
                            - min (nat (chunk_overlap self)) (length (chunks ! (i - 1))))
                        (chunks ! (i - 1))
                      @ '' '' @ chunks ! i)
      \<and> split_text self t0 = Inr returned
      \<and> map content returned = map strip (filter (\<lambda>c. strip c \<noteq> []) out)
      \<and> (\<forall>ov' rec'. segments (self\<lparr>chunk_overlap := ov'\<rparr>) separator rec' (strip t0)
                        = Inr chunks)"
proof -
  have run: "recursive_split self (strip t0) (separators self) = Inr (add_overlap self chunks)"
    using seps sep segs by simp
  from split_text_contents[OF run t] obtain returned
    where ret: "split_text self t0 = Inr returned"
      "map content returned = map strip (filter (\<lambda>c. strip c \<noteq> []) (add_overlap self chunks))"
    by blast
  have nth: "\<forall>i. 0 < i \<and> i < length chunks \<longrightarrow>
            add_overlap self chunks ! i
              = drop (length (chunks ! (i - 1))
                            - min (nat (chunk_overlap self)) (length (chunks ! (i - 1))))
                        (chunks ! (i - 1))
                      @ '' '' @ chunks ! i"
    using add_overlap_nth(3)[OF n ov] overlap_text_last[OF ov] by simp
  have indep: "\<forall>ov' rec'. segments (self\<lparr>chunk_overlap := ov'\<rparr>) separator rec' (strip t0)
                        = Inr chunks"
  proof (intro allI)
    fix ov' rec'
    have "chunk_size (self\<lparr>chunk_overlap := ov'\<rparr>) = chunk_size self" by simp
    from segments_fit[OF fit this, of rec' "\<lambda>split. recursive_split self split rest"] segs
    show "segments (self\<lparr>chunk_overlap := ov'\<rparr>) separator rec' (strip t0) = Inr chunks"
      by simp
  qed
  show ?thesis
  proof (intro exI conjI)
    show "recursive_split self (strip t0) (separators self) = Inr (add_overlap self chunks)"
      by (rule run)
    show "length (add_overlap self chunks) = length chunks"
      by (rule add_overlap_nth(1)[OF n ov])
    show "add_overlap self chunks ! 0 = chunks ! 0"
      by (rule add_overlap_nth(2)[OF n ov])
    show "\<forall>i. 0 < i \<and> i < length chunks \<longrightarrow>
            add_overlap self chunks ! i
              = drop (length (chunks ! (i - 1))
                            - min (nat (chunk_overlap self)) (length (chunks ! (i - 1))))
                        (chunks ! (i - 1))
                      @ '' '' @ chunks ! i"
      by (rule nth)
    show "split_text self t0 = Inr returned" by (rule ret(1))
    show "map content returned
            = map strip (filter (\<lambda>c. strip c \<noteq> []) (add_overlap self chunks))"
      by (rule ret(2))
    show "\<forall>ov' rec'. segments (self\<lparr>chunk_overlap := ov'\<rparr>) separator rec' (strip t0)
                        = Inr chunks"
      by (rule indep)
  qed
qed

theorem overlap_prefix_of_previous_segment_witness:
  "\<exists>out returned.
      recursive_split (TextChunker 3 1 None) (''ab '' @ [CHR 0x0A, CHR 0x0A] @ ''cd'')
        (separators (TextChunker 3 1 None)) = Inr out
    \<and> out = [''ab '', ''  cd'']
    \<and> split_text (TextChunker 3 1 None) (''ab '' @ [CHR 0x0A, CHR 0x0A] @ ''cd'') = Inr returned
    \<and> map content returned = [''ab'', ''cd'']
    \<and> segments ((TextChunker 3 1 None)\<lparr>chunk_overlap := 0\<rparr>) [CHR 0x0A, CHR 0x0A]
         (\<lambda>split. Inr [split]) (''ab '' @ [CHR 0x0A, CHR 0x0A] @ ''cd'')
       = Inr [''ab '', ''cd'']"
proof -
  let ?self = "TextChunker 3 1 None"
  let ?t0 = "''ab '' @ [CHR 0x0A, CHR 0x0A] @ ''cd''"
  let ?sep = "[CHR 0x0A, CHR 0x0A]"
  have strip_t: "strip ?t0 = ?t0" by code_simp
  have seps: "separators ?self = ?sep # tl default_separators" by code_simp
  have sep: "?sep \<noteq> ([] :: string)" by simp
  have t: "strip ?t0 \<noteq> []" by code_simp
  have fit: "\<forall>p \<in> set (split_str ?sep (strip ?t0)). int (length p) \<le> chunk_size ?self"
    by code_simp
  have segs: "segments ?self ?sep (\<lambda>split. recursive_split ?self split (tl default_separators))
                (strip ?t0) = Inr [''ab '', ''cd'']"
    by code_simp
  have n: "2 \<le> length [''ab '', ''cd'']" by simp
  have ov: "0 < chunk_overlap ?self" by (simp add: TextChunker_def)
  have run: "recursive_split ?self ?t0 (separators ?self) = Inr [''ab '', ''  cd'']"
    by code_simp
  have stripped: "map strip (filter (\<lambda>c. strip c \<noteq> []) [''ab '', ''  cd'']) = [''ab'', ''cd'']"
    by code_simp
  from overlap_prefix_of_previous_segment [OF seps sep t fit segs n ov]
  obtain out returned where
    h1: "recursive_split ?self (strip ?t0) (separators ?self) = Inr out"
    and h2: "split_text ?self ?t0 = Inr returned"
    and h3: "map content returned = map strip (filter (\<lambda>c. strip c \<noteq> []) out)"
    and h4: "\<forall>ov' rec'. segments (?self\<lparr>chunk_overlap := ov'\<rparr>) ?sep rec' (strip ?t0)
                        = Inr [''ab '', ''cd'']"
    by (elim exE conjE)
  from h1 have h1': "recursive_split ?self ?t0 (separators ?self) = Inr out"
    by (simp only: strip_t)
  with run have out: "out = [''ab '', ''  cd'']" by simp
  from h3 have cont: "map content returned = [''ab'', ''cd'']"
    by (simp only: out stripped)
  from h4 have "segments (?self\<lparr>chunk_overlap := 0\<rparr>) ?sep (\<lambda>split. Inr [split]) (strip ?t0)
                        = Inr [''ab '', ''cd'']"
    by (elim allE)
  then have ind: "segments (?self\<lparr>chunk_overlap := 0\<rparr>) ?sep (\<lambda>split. Inr [split]) ?t0
                        = Inr [''ab '', ''cd'']"
    by (simp only: strip_t)
  from h1' out h2 cont ind show ?thesis by (intro exI conjI)
qed

section \<open>Chunking: sizes and indices\<close>

text \<open>
  C2. The claim is that no chunk exceeds the chunk size before the overlap is added,
  unless a single token does. With chunk size 5 and overlap 2, the text
  \<open>"aaa bbb\n\ncc"\<close> has no token longer than 3 characters and never reaches the
  fixed-stride fallback, yet the segment list of the outermost call, before its own
  overlap is added, holds a chunk of 12 characters: the inner calls have each prefixed
  it already.
\<close>

theorem nested_overlap_exceeds_chunk_size:
  "segments (TextChunker 5 2 None) [CHR 0x0A, CHR 0x0A]
     (\<lambda>split. recursive_split (TextChunker 5 2 None) split (tl default_separators))
     (''aaa bbb'' @ [CHR 0x0A, CHR 0x0A] @ ''cc'')
   = Inr [''aaa'', ''aa aa aa bbb'', ''cc'']"
  by code_simp

text \<open>
  C3. The claim is that the chunk indices returned are 0..n-1. The index is the
  position in the list before whitespace-only chunks are dropped: with chunk size 3 and
  overlap 1, the text \<open>"aa \n\n \n\nbb"\<close> gives two chunks with indices 0 and 2.
\<close>

theorem chunk_index_gap:
  "split_text (TextChunker 3 1 None)
     (''aa '' @ [CHR 0x0A, CHR 0x0A] @ '' '' @ [CHR 0x0A, CHR 0x0A] @ ''bb'')
   = Inr [\<lparr>chunk_index = 0, content = ''aa'', token_count = 0\<rparr>,
          \<lparr>chunk_index = 2, content = ''bb'', token_count = 1\<rparr>]"
  by code_simp

section \<open>Chunking: parameters are not validated\<close>

lemma split_by_size_ok: "chunk_overlap self \<noteq> chunk_size self \<Longrightarrow> \<not> isl (split_by_size self text)"
  by (simp add: split_by_size_def Let_def)

lemma split_step_ok:
  assumes "\<forall>s. \<not> isl (rec s)"
  shows "\<not> isl (split_step self sep rec split st)"
proof -
  from assms have "\<not> isl (rec split)" by (rule spec)
  then obtain sub where "rec split = Inr sub"
    by (cases "rec split") simp_all
  then show ?thesis
    by (cases st) (simp add: split_step_def Let_def)
qed

lemma split_loop_ok:
  "\<forall>s. \<not> isl (rec s) \<Longrightarrow> \<not> isl (split_loop self sep rec splits st)"
proof (induction splits arbitrary: st)
  case Nil
  then show ?case by simp
next
  case (Cons x xs)
  from split_step_ok[OF Cons.prems, of self sep x st]
  obtain st' where "split_step self sep rec x st = Inr st'"
    by (cases "split_step self sep rec x st") auto
  with Cons show ?case by simp
qed

lemma segments_ok:
  assumes "\<forall>s. \<not> isl (rec s)"
  shows "\<not> isl (segments self sep rec t)"
proof -
  from split_loop_ok[OF assms, of self sep "split_str sep t" "([], [])"]
  obtain st where "split_loop self sep rec (split_str sep t) ([], []) = Inr st"
    by (cases "split_loop self sep rec (split_str sep t) ([], [])") simp_all
  then show ?thesis by (cases st) (simp add: segments_def)
qed

lemma recursive_split_ok:
  "chunk_overlap self \<noteq> chunk_size self \<Longrightarrow> \<not> isl (recursive_split self t seps)"
proof (induction seps arbitrary: t)
  case Nil
  then show ?case by (simp add: split_by_size_ok)
next
  case (Cons sep rest)
  then have "\<forall>s. \<not> isl (recursive_split self s rest)" by blast
  from segments_ok[OF this, of self sep t]
  obtain chunks where "segments self sep (\<lambda>s. recursive_split self s rest) t = Inr chunks"
    by (cases "segments self sep (\<lambda>s. recursive_split self s rest) t") simp_all
  with Cons.prems show ?case by (simp add: split_by_size_ok)
qed

lemma split_text_ok:
  "chunk_overlap self \<noteq> chunk_size self \<Longrightarrow> \<exists>chunks. split_text self t = Inr chunks"
proof -
  assume "chunk_overlap self \<noteq> chunk_size self"
  from recursive_split_ok[OF this, of "strip t" "separators self"]
  obtain chunks where "recursive_split self (strip t) (separators self) = Inr chunks"
    by (cases "recursive_split self (strip t) (separators self)") simp_all
  then show ?thesis by (simp add: split_text_def)
qed

lemma split_by_size_zero_stride:
  "chunk_overlap self = chunk_size self \<Longrightarrow> split_by_size self t = Inl ValueError"
  by (simp add: split_by_size_def)

lemma split_by_size_negative_stride:
  "chunk_overlap self > chunk_size self \<Longrightarrow> split_by_size self t = Inr []"
  by (simp add: split_by_size_def range0_def)


text \<open>
  C4, as stated, fails: with chunk size 10 and overlap 20 the text \<open>"hello"\<close> is split
  into one chunk and no error is raised.
\<close>

theorem overlap_above_size_accepted:
  "split_text (TextChunker 10 20 None) ''hello''
   = Inr [\<lparr>chunk_index = 0, content = ''hello'', token_count = 1\<rparr>]"
  by code_simp

text \<open>
  C4, amended. The chunker stores its parameters as given and checks nothing. When the
  overlap differs from the chunk size, so in particular when it is larger, splitting
  never fails: every text yields a chunk list. When the overlap is larger than the
  chunk size the fixed-stride fallback yields no slices. When the overlap equals the
  chunk size the fixed-stride fallback raises the ValueError of a zero range step.
\<close>

theorem no_parameter_validation:
  "chunk_size (TextChunker cs co seps) = cs \<and> chunk_overlap (TextChunker cs co seps) = co
 \<and> (chunk_overlap self \<noteq> chunk_size self \<longrightarrow> (\<exists>chunks. split_text self t = Inr chunks))
 \<and> (chunk_size self < chunk_overlap self \<longrightarrow> split_by_size self t = Inr [])
 \<and> (chunk_overlap self = chunk_size self \<longrightarrow> split_by_size self t = Inl ValueError)"
  using split_text_ok[of self t] split_by_size_negative_stride[of self t]
    split_by_size_zero_stride[of self t]
  by (simp add: TextChunker_def)

theorem no_parameter_validation_witness:
  "(\<exists>chunks. split_text (TextChunker 10 20 None) ''hello'' = Inr chunks)
 \<and> split_by_size (TextChunker 10 20 None) ''hello'' = Inr []
 \<and> split_by_size (TextChunker 3 3 None) ''hello'' = Inl ValueError"
  using no_parameter_validation [of 10 20 None "TextChunker 10 20 None" "''hello''"]
    no_parameter_validation [of 3 3 None "TextChunker 3 3 None" "''hello''"]
  by (simp add: TextChunker_def)

end
